theory Spec2Isabelle
  imports Complex_Main
begin

section \<open>Numbers of the source\<close>

text \<open>
  The script computes with JavaScript numbers, which are IEEE 754 doubles.
  Coefficients and factor counts are integers (\<open>int\<close>). A pixel quantity is a real
  number. The snap resolver and the animation step round the result of every
  arithmetic operation to the nearest double (\<open>dbl\<close> below), as the program does; the
  validator's areas and the generated layouts are computed without rounding. A
  coordinate that may hold \<^verbatim>\<open>undefined\<close> (a target never assigned, a position copied
  from such a target) is a \<open>real option\<close>: \<open>None\<close> stands for \<^verbatim>\<open>undefined\<close>, which
  arithmetic turns into NaN and every comparison with which is false.
\<close>

text \<open>\<^verbatim>\<open>a % b\<close>: the remainder takes the sign of the dividend; NaN for \<open>b = 0\<close>.\<close>

definition js_rem :: "int \<Rightarrow> int \<Rightarrow> int option" where
  "js_rem a b = (if b = 0 then None else Some (sgn a * (\<bar>a\<bar> mod \<bar>b\<bar>)))"

text \<open>\<^verbatim>\<open>v || d\<close> on the result of \<^verbatim>\<open>parseInt\<close>: NaN (\<open>None\<close>) and 0 are falsy.\<close>

definition js_or :: "int option \<Rightarrow> int \<Rightarrow> int" where
  "js_or v d = (case v of None \<Rightarrow> d | Some k \<Rightarrow> if k = 0 then d else k)"

text \<open>
  Rounding to double precision, to nearest with ties to even. \<open>ulp x\<close> is the spacing
  of the doubles around \<open>x\<close>: the power of two \<open>s\<close> with \<open>2\<^sup>5\<^sup>2 s \<le> |x| < 2\<^sup>5\<^sup>3 s\<close>, and
  \<open>2\<^sup>-\<^sup>1\<^sup>0\<^sup>7\<^sup>4\<close> in the subnormal range. It is found from 1 by halving (at most 1074
  times) or doubling (at most 971 times, the spacing below the largest finite double).
  Magnitudes of \<open>2\<^sup>1\<^sup>0\<^sup>2\<^sup>4\<close> and more, where the program has Infinity, are outside the
  model.
\<close>

definition rne :: "real \<Rightarrow> int" where
  "rne q = (let f = \<lfloor>q\<rfloor>; r = q - of_int f
            in if r < 1 / 2 then f else if 1 / 2 < r then f + 1
               else if even f then f else f + 1)"

function ulp_down :: "real \<Rightarrow> real \<Rightarrow> nat \<Rightarrow> real" where
  "ulp_down x s k = (if 0 < k \<and> \<bar>x\<bar> < 2 ^ 52 * s then ulp_down x (s / 2) (k - 1) else s)"
  by pat_completeness auto
termination
  by (relation "measure (\<lambda>(x, s, k). k)") auto

declare ulp_down.simps [simp del]

function ulp_up :: "real \<Rightarrow> real \<Rightarrow> nat \<Rightarrow> real" where
  "ulp_up x s k = (if 0 < k \<and> 2 ^ 53 * s \<le> \<bar>x\<bar> then ulp_up x (2 * s) (k - 1) else s)"
  by pat_completeness auto
termination
  by (relation "measure (\<lambda>(x, s, k). k)") auto

declare ulp_up.simps [simp del]

definition ulp :: "real \<Rightarrow> real" where
  "ulp x = (if 2 ^ 53 \<le> \<bar>x\<bar> then ulp_up x 1 971 else ulp_down x 1 1074)"

definition dbl :: "real \<Rightarrow> real" where
  "dbl x = (if x = 0 then 0 else of_int (rne (x / ulp x)) * ulp x)"

text \<open>\<^verbatim>\<open>Math.floor(Math.sqrt(num))\<close> for \<open>num \<ge> 0\<close>, computed by counting upwards.\<close>

function sqrt_from :: "int \<Rightarrow> int \<Rightarrow> int" where
  "sqrt_from num k = (if 0 \<le> k \<and> (k + 1) * (k + 1) \<le> num then sqrt_from num (k + 1) else k)"
  by pat_completeness auto
termination
proof (relation "measure (\<lambda>(num, k). nat (num - k))")
  show "wf (measure (\<lambda>(num, k). nat (num - k)))" by simp
next
  fix num k :: int
  assume a: "0 \<le> k \<and> (k + 1) * (k + 1) \<le> num"
  then have "k + 1 \<le> (k + 1) * (k + 1)"
    by (simp add: mult_le_cancel_left1)
  with a have "k < num" by linarith
  then show "((num, k + 1), (num, k)) \<in> measure (\<lambda>(num, k). nat (num - k))"
    by simp
qed

declare sqrt_from.simps [simp del]

definition floor_sqrt :: "int \<Rightarrow> int" where
  "floor_sqrt num = sqrt_from num 0"

section \<open>getClosestFactors\<close>

text \<open>
  \<^verbatim>\<open>
  getClosestFactors(num) {
      num = Math.abs(num);
      let m = Math.floor(Math.sqrt(num));
      while (m > 0) {
          if (num % m === 0) return [m, num / m];
          m--;
      }
      return [1, num];
  }
  \<close>
  \<open>num / m\<close> is only evaluated when \<open>m\<close> divides \<open>num\<close>, where it is the exact
  quotient.
\<close>

function factors_loop :: "int \<Rightarrow> int \<Rightarrow> int \<times> int" where
  "factors_loop num m =
     (if m > 0 then
        (if js_rem num m = Some 0 then (m, num div m) else factors_loop num (m - 1))
      else (1, num))"
  by pat_completeness auto
termination
  by (relation "measure (\<lambda>(num, m). nat m)") auto

declare factors_loop.simps [simp del]

definition getClosestFactors :: "int \<Rightarrow> int \<times> int" where
  "getClosestFactors num = factors_loop \<bar>num\<bar> (floor_sqrt \<bar>num\<bar>)"

section \<open>Configuration and tiles\<close>

text \<open>
  \<^verbatim>\<open>TILE_CONFIG.SIZES\<close> holds the two scale parameters; \<^verbatim>\<open>updateTileConfig\<close>
  chooses them from the window width. \<^verbatim>\<open>TILE_CONFIG.GAP\<close> is the constant 10.
\<close>

record config =
  size_x :: real
  size_u :: real

definition GAP :: real where
  "GAP = 10"

definition updateTileConfig :: "real \<Rightarrow> config" where
  "updateTileConfig innerWidth =
     (if innerWidth \<le> 768 then \<lparr>size_x = 100, size_u = 20\<rparr>
      else \<lparr>size_x = 200, size_u = 25\<rparr>)"

datatype tile_type = X2_tile | X_tile | One_tile

text \<open>
  The fields of \<^verbatim>\<open>class Tile\<close>; \<open>tile_x\<close>, \<open>tile_y\<close>, \<open>tile_w\<close>, \<open>tile_h\<close> are the
  source's \<^verbatim>\<open>x\<close>, \<^verbatim>\<open>y\<close>, \<^verbatim>\<open>w\<close>, \<^verbatim>\<open>h\<close>. The targets are \<^verbatim>\<open>undefined\<close> until
  the solver assigns them.
\<close>

record tile =
  type :: tile_type
  tile_x :: "real option"
  tile_y :: "real option"
  isNegative :: bool
  rotation :: nat
  isDragging :: bool
  uSize :: real
  xSize :: real
  tile_w :: real
  tile_h :: real
  targetX :: "real option"
  targetY :: "real option"

definition updateDimensions :: "tile \<Rightarrow> tile" where
  "updateDimensions t =
     (case type t of
        X2_tile \<Rightarrow> t\<lparr>tile_w := xSize t, tile_h := xSize t\<rparr>
      | X_tile \<Rightarrow> t\<lparr>tile_w := (if rotation t = 0 then xSize t else uSize t),
                     tile_h := (if rotation t = 0 then uSize t else xSize t)\<rparr>
      | One_tile \<Rightarrow> t\<lparr>tile_w := uSize t, tile_h := uSize t\<rparr>)"

text \<open>The constructor \<^verbatim>\<open>new Tile(type, x, y, isNegative)\<close>.\<close>

definition new_tile :: "config \<Rightarrow> tile_type \<Rightarrow> real \<Rightarrow> real \<Rightarrow> bool \<Rightarrow> tile" where
  "new_tile cfg ty px py neg =
     updateDimensions
       \<lparr>type = ty, tile_x = Some px, tile_y = Some py, isNegative = neg, rotation = 0,
        isDragging = False, uSize = size_u cfg, xSize = size_x cfg, tile_w = 0, tile_h = 0,
        targetX = None, targetY = None\<rparr>"

section \<open>The application state\<close>

text \<open>
  The fields of \<^verbatim>\<open>class App\<close> that the modelled operations read or write, with what
  they read from outside: the canvas size, the scale parameters, the outcome of
  \<^verbatim>\<open>parseInt\<close> on the three coefficient fields (\<open>None\<close> is NaN) and the feedback
  panel (\<open>None\<close> while nothing was shown, else the message and its success flag).
\<close>

record app =
  tiles :: "tile list"
  isAnimating :: bool
  feedback :: "(string \<times> bool) option"
  canvas_width :: real
  canvas_height :: real
  sizes :: config
  coeff_a :: "int option"
  coeff_b :: "int option"
  coeff_c :: "int option"

definition showFeedback :: "string \<Rightarrow> bool \<Rightarrow> app \<Rightarrow> app" where
  "showFeedback message isSuccess s = s\<lparr>feedback := Some (message, isSuccess)\<rparr>"

section \<open>generateTiles\<close>

text \<open>
  The three loops of \<^verbatim>\<open>generateTiles\<close>: a row of \<open>x\<^sup>2\<close> tiles, rows of ten \<open>x\<close>
  tiles (the loop returns the \<^verbatim>\<open>startY\<close> it ends with), a row of unit tiles.
\<close>

fun x2_row :: "config \<Rightarrow> bool \<Rightarrow> nat \<Rightarrow> real \<Rightarrow> real \<Rightarrow> tile list" where
  "x2_row cfg neg 0 startX startY = []"
| "x2_row cfg neg (Suc k) startX startY =
     new_tile cfg X2_tile startX startY neg # x2_row cfg neg k (startX + (size_x cfg + GAP)) startY"

fun x_rows :: "config \<Rightarrow> bool \<Rightarrow> nat \<Rightarrow> nat \<Rightarrow> real \<Rightarrow> real \<Rightarrow> tile list \<times> real" where
  "x_rows cfg neg 0 i startX startY = ([], startY)"
| "x_rows cfg neg (Suc k) i startX startY =
     (let t = new_tile cfg X_tile startX startY neg;
          (rest, endY) =
            (if i mod 10 = 9 then x_rows cfg neg k (Suc i) 50 (startY + 110)
             else x_rows cfg neg k (Suc i) (startX + 50) startY)
      in (t # rest, endY))"

fun one_row :: "config \<Rightarrow> bool \<Rightarrow> nat \<Rightarrow> real \<Rightarrow> real \<Rightarrow> tile list" where
  "one_row cfg neg 0 startX startY = []"
| "one_row cfg neg (Suc k) startX startY =
     new_tile cfg One_tile startX startY neg # one_row cfg neg k (startX + 50) startY"

definition generateTiles :: "config \<Rightarrow> int \<Rightarrow> int \<Rightarrow> int \<Rightarrow> tile list" where
  "generateTiles cfg a b c =
     (let squares = x2_row cfg (a < 0) (nat \<bar>a\<bar>) 50 50;
          (bars, endY) = x_rows cfg (b < 0) (nat \<bar>b\<bar>) 0 50 (50 + 120);
          units = one_row cfg (c < 0) (nat \<bar>c\<bar>) 50 (endY + 120)
      in squares @ bars @ units)"

section \<open>snapToNeighbors\<close>

definition snapDist :: real where
  "snapDist = 15"

text \<open>The test \<^verbatim>\<open>Math.abs(u - v) < snapDist\<close>; the difference is rounded.\<close>

definition near :: "real \<Rightarrow> real \<Rightarrow> bool" where
  "near u v = (\<bar>dbl (u - v)\<bar> < snapDist)"

text \<open>\<open>orelse\<close> plays the \<^verbatim>\<open>snapped\<close> flag: a later block runs only if no earlier one fired.\<close>

definition orelse :: "'a option \<Rightarrow> 'a option \<Rightarrow> 'a option" where
  "orelse r1 r2 = (case r1 of Some v \<Rightarrow> Some v | None \<Rightarrow> r2)"

text \<open>
  One iteration of the loop of \<^verbatim>\<open>snapToNeighbors\<close>: the new position of the moving
  tile against one other tile, \<open>None\<close> if no block fires. \<open>w\<close> and \<open>h\<close> are the
  moving tile's \<^verbatim>\<open>tile.w\<close> and \<^verbatim>\<open>tile.h\<close>; the subtractions \<^verbatim>\<open>oL - tile.w\<close>,
  \<^verbatim>\<open>oB - tile.h\<close> and their like are rounded. Every branch of the source tests one
  distance between vertical edges and one between horizontal edges, so with an
  \<^verbatim>\<open>undefined\<close> coordinate on either tile (NaN distances) no branch is taken.
\<close>

text \<open>The edges of a rectangle: left, right, top, bottom.\<close>

type_synonym edges = "real \<times> real \<times> real \<times> real"

fun snap_right :: "real \<Rightarrow> real \<Rightarrow> edges \<Rightarrow> edges \<Rightarrow> (real \<times> real) option" where
  "snap_right w h (tL, tR, tT, tB) (oL, oR, oT, oB) =
     (if near tL oR then
        (if near tT oT then Some (oR, oT)
         else if near tB oB then Some (oR, dbl (oB - h))
         else None)
      else None)"

fun snap_left :: "real \<Rightarrow> real \<Rightarrow> edges \<Rightarrow> edges \<Rightarrow> (real \<times> real) option" where
  "snap_left w h (tL, tR, tT, tB) (oL, oR, oT, oB) =
     (if near tR oL then
        (if near tT oT then Some (dbl (oL - w), oT)
         else if near tB oB then Some (dbl (oL - w), dbl (oB - h))
         else None)
      else None)"

fun snap_bottom :: "real \<Rightarrow> real \<Rightarrow> edges \<Rightarrow> edges \<Rightarrow> (real \<times> real) option" where
  "snap_bottom w h (tL, tR, tT, tB) (oL, oR, oT, oB) =
     (if near tT oB then
        (if near tL oL then Some (oL, oB)
         else if near tR oR then Some (dbl (oR - w), oB)
         else None)
      else None)"

fun snap_top :: "real \<Rightarrow> real \<Rightarrow> edges \<Rightarrow> edges \<Rightarrow> (real \<times> real) option" where
  "snap_top w h (tL, tR, tT, tB) (oL, oR, oT, oB) =
     (if near tB oT then
        (if near tL oL then Some (oL, dbl (oT - h))
         else if near tR oR then Some (dbl (oR - w), dbl (oT - h))
         else None)
      else None)"

fun snap_left_left :: "real \<Rightarrow> real \<Rightarrow> edges \<Rightarrow> edges \<Rightarrow> (real \<times> real) option" where
  "snap_left_left w h (tL, tR, tT, tB) (oL, oR, oT, oB) =
     (if near tL oL then
        (if near tT oT then Some (oL, oT)
         else if near tB oB then Some (oL, dbl (oB - h))
         else if near tT oB then Some (oL, oB)
         else if near tB oT then Some (oL, dbl (oT - h))
         else None)
      else None)"

fun snap_top_top :: "real \<Rightarrow> real \<Rightarrow> edges \<Rightarrow> edges \<Rightarrow> (real \<times> real) option" where
  "snap_top_top w h (tL, tR, tT, tB) (oL, oR, oT, oB) =
     (if near tT oT then
        (if near tL oL then Some (oL, oT)
         else if near tR oR then Some (dbl (oR - w), oT)
         else if near tL oR then Some (oR, oT)
         else if near tR oL then Some (dbl (oL - w), oT)
         else None)
      else None)"

text \<open>
  The four edges as the loop computes them: \<^verbatim>\<open>x\<close>, \<^verbatim>\<open>x + w\<close>, \<^verbatim>\<open>y\<close>, \<^verbatim>\<open>y + h\<close>,
  the sums rounded.
\<close>

definition snap_edges :: "tile \<Rightarrow> edges option" where
  "snap_edges t =
     (case (tile_x t, tile_y t) of
        (Some px, Some py) \<Rightarrow> Some (px, dbl (px + tile_w t), py, dbl (py + tile_h t))
      | _ \<Rightarrow> None)"

definition snap_pair :: "tile \<Rightarrow> tile \<Rightarrow> (real \<times> real) option" where
  "snap_pair t other =
     (case (snap_edges t, snap_edges other) of
        (Some te, Some oe) \<Rightarrow>
          orelse (snap_right (tile_w t) (tile_h t) te oe)
         (orelse (snap_left (tile_w t) (tile_h t) te oe)
         (orelse (snap_bottom (tile_w t) (tile_h t) te oe)
         (orelse (snap_top (tile_w t) (tile_h t) te oe)
         (orelse (snap_left_left (tile_w t) (tile_h t) te oe)
                 (snap_top_top (tile_w t) (tile_h t) te oe)))))
      | _ \<Rightarrow> None)"

text \<open>
  The loop over \<^verbatim>\<open>this.tiles\<close>: \<open>i\<close> is the place of the moving tile in the list
  (\<^verbatim>\<open>other === tile\<close> compares identities), \<open>j\<close> the place of the head of the rest.
  The loop stops at the first tile that snaps.
\<close>

fun snap_loop :: "tile \<Rightarrow> nat \<Rightarrow> nat \<Rightarrow> tile list \<Rightarrow> tile" where
  "snap_loop t i j [] = t"
| "snap_loop t i j (other # rest) =
     (if j = i then snap_loop t i (Suc j) rest
      else (case snap_pair t other of
              Some (nx, ny) \<Rightarrow> t\<lparr>tile_x := Some nx, tile_y := Some ny\<rparr>
            | None \<Rightarrow> snap_loop t i (Suc j) rest))"

definition snapToNeighbors :: "nat \<Rightarrow> app \<Rightarrow> app" where
  "snapToNeighbors i s =
     (if i < length (tiles s)
      then s\<lparr>tiles := (tiles s)[i := snap_loop (tiles s ! i) i 0 (tiles s)]\<rparr>
      else s)"

section \<open>validateArrangement\<close>

text \<open>The rectangle a tile occupies, \<open>None\<close> with an \<^verbatim>\<open>undefined\<close> coordinate.\<close>

definition tile_edges :: "tile \<Rightarrow> edges option" where
  "tile_edges t =
     (case (tile_x t, tile_y t) of
        (Some px, Some py) \<Rightarrow> Some (px, px + tile_w t, py, py + tile_h t)
      | _ \<Rightarrow> None)"

text \<open>
  The bounding box. The source starts from \<open>\<plusminus>\<close>Infinity, so the first tile's
  rectangle is the first value of the accumulator; an \<^verbatim>\<open>undefined\<close> coordinate makes
  \<^verbatim>\<open>Math.min\<close> and \<^verbatim>\<open>Math.max\<close> return NaN from then on (\<open>None\<close>).
\<close>

fun bbox_loop :: "edges \<Rightarrow> tile list \<Rightarrow> edges option" where
  "bbox_loop acc [] = Some acc"
| "bbox_loop (minX, maxX, minY, maxY) (t # ts) =
     (case tile_edges t of
        None \<Rightarrow> None
      | Some (l, r, tp, b) \<Rightarrow> bbox_loop (min minX l, max maxX r, min minY tp, max maxY b) ts)"

definition bbox :: "tile list \<Rightarrow> edges option" where
  "bbox ts = (case ts of [] \<Rightarrow> None
              | t # rest \<Rightarrow> (case tile_edges t of None \<Rightarrow> None | Some e \<Rightarrow> bbox_loop e rest))"

definition area :: "tile \<Rightarrow> real" where
  "area t = tile_w t * tile_h t"

definition total_area :: "tile list \<Rightarrow> real" where
  "total_area ts = sum_list (map area ts)"

definition AREA_TOLERANCE :: real where
  "AREA_TOLERANCE = 200"

text \<open>
  \<^verbatim>\<open>getGridDimensions\<close>: \<open>bestErr\<close> starts at Infinity (\<open>None\<close>); the candidates are
  visited with \<open>a\<close> from 1 to 5 and, inside, \<open>b\<close> from 0 to 10.
\<close>

definition grid_err :: "real \<Rightarrow> real \<Rightarrow> real \<Rightarrow> int \<times> int \<Rightarrow> real" where
  "grid_err X_SIZE U_SIZE pixels cand =
     (case cand of (a, b) \<Rightarrow>
        (let est = of_int a * X_SIZE + of_int b * U_SIZE in \<bar>est - pixels\<bar>))"

definition grid_step :: "real \<Rightarrow> real \<Rightarrow> real \<Rightarrow> real option \<times> int \<times> int \<Rightarrow> int \<times> int \<Rightarrow> real option \<times> int \<times> int" where
  "grid_step X_SIZE U_SIZE pixels best cand =
     (case best of
        (bestErr, bestA, bestB) \<Rightarrow>
          (let err = grid_err X_SIZE U_SIZE pixels cand
           in if (case bestErr of None \<Rightarrow> True | Some e \<Rightarrow> err < e) then (Some err, cand)
              else (bestErr, bestA, bestB)))"

definition grid_candidates :: "(int \<times> int) list" where
  "grid_candidates = List.product [1..5] [0..10]"

definition getGridDimensions :: "real \<Rightarrow> real \<Rightarrow> real \<Rightarrow> int \<times> int" where
  "getGridDimensions X_SIZE U_SIZE pixels =
     (case foldl (grid_step X_SIZE U_SIZE pixels) (None, 0, 0) grid_candidates of
        (Some bestErr, bestA, bestB) \<Rightarrow> if bestErr < 30 then (bestA, bestB) else (0, 0)
      | (None, bestA, bestB) \<Rightarrow> (0, 0))"

text \<open>
  The body of the double loop over \<open>p\<close> and \<open>q\<close> in the overlap model: whether the
  pair makes the loop return with success.
\<close>

definition cut_matches :: "int \<times> int \<Rightarrow> int \<times> int \<Rightarrow> int \<Rightarrow> int \<Rightarrow> int \<Rightarrow> int \<times> int \<Rightarrow> bool" where
  "cut_matches baseW baseH valA valB valC pq =
     (case (baseW, baseH, pq) of
        ((baseX_A, base1_A), (baseX_B, base1_B), (p, q)) \<Rightarrow>
          (let f1_x = baseX_A; f1_c = base1_A - p;
               f2_x = baseX_B; f2_c = base1_B - q;
               resA = f1_x * f2_x;
               resB = (f1_x * f2_c) + (f1_c * f2_x);
               resC = f1_c * f2_c
           in resA = valA \<and> resB = valB \<and> resC = valC))"

definition expectedNegArea :: "real \<Rightarrow> real \<Rightarrow> real \<Rightarrow> int \<times> int \<Rightarrow> real" where
  "expectedNegArea U_SIZE bboxWidth bboxHeight pq =
     (case pq of (p, q) \<Rightarrow>
        (of_int p * U_SIZE * bboxHeight) + (of_int q * U_SIZE * bboxWidth)
          - (of_int p * of_int q * U_SIZE * U_SIZE))"

definition cut_accepts :: "real \<Rightarrow> int \<times> int \<Rightarrow> int \<times> int \<Rightarrow> real \<Rightarrow> real \<Rightarrow> real \<Rightarrow> int \<Rightarrow> int \<Rightarrow> int \<Rightarrow> int \<times> int \<Rightarrow> bool" where
  "cut_accepts U_SIZE baseW baseH bboxWidth bboxHeight actualNegArea valA valB valC pq =
     (pq \<noteq> (0, 0)
      \<and> cut_matches baseW baseH valA valB valC pq
      \<and> \<bar>expectedNegArea U_SIZE bboxWidth bboxHeight pq - actualNegArea\<bar> < AREA_TOLERANCE)"

definition cut_candidates :: "(int \<times> int) list" where
  "cut_candidates = List.product [0..5] [0..5]"

datatype verdict = NoTiles | PerfectRectangle | ValidOverlap | Invalid

text \<open>
  Which \<^verbatim>\<open>return\<close> of \<^verbatim>\<open>validateArrangement\<close> is taken. With a NaN bounding box both
  area comparisons are false, which leaves the last statement of the function.
\<close>

definition validate_verdict :: "config \<Rightarrow> tile list \<Rightarrow> int \<Rightarrow> int \<Rightarrow> int \<Rightarrow> verdict" where
  "validate_verdict cfg ts valA valB valC =
     (if length ts = 0 then NoTiles
      else
        let positiveTiles = filter (\<lambda>t. \<not> isNegative t) ts;
            negativeTiles = filter isNegative ts;
            hasNegative = list_ex isNegative ts;
            totalTileArea = total_area ts
        in (case bbox ts of
              None \<Rightarrow> Invalid
            | Some (minX, maxX, minY, maxY) \<Rightarrow>
                (let bboxWidth = maxX - minX;
                     bboxHeight = maxY - minY;
                     bboxArea = bboxWidth * bboxHeight
                 in if \<not> hasNegative \<and> \<bar>bboxArea - totalTileArea\<bar> < AREA_TOLERANCE
                    then PerfectRectangle
                    else if hasNegative \<and> length positiveTiles > 0
                         \<and> \<bar>bboxArea - total_area positiveTiles\<bar> < AREA_TOLERANCE
                         \<and> (let X_SIZE = size_x cfg; U_SIZE = size_u cfg;
                                   baseW = getGridDimensions X_SIZE U_SIZE bboxWidth;
                                   baseH = getGridDimensions X_SIZE U_SIZE bboxHeight
                               in list_ex (cut_accepts U_SIZE baseW baseH bboxWidth bboxHeight
                                             (total_area negativeTiles) valA valB valC)
                                    cut_candidates)
                    then ValidOverlap
                    else Invalid)))"

definition verdict_message :: "verdict \<Rightarrow> string \<times> bool" where
  "verdict_message v =
     (case v of
        NoTiles \<Rightarrow> (''No tiles to check!'', False)
      | PerfectRectangle \<Rightarrow> (''Great job! You formed a perfect rectangle.'', True)
      | ValidOverlap \<Rightarrow> (''Valid Overlap Arrangement! Result area matches the equation.'', True)
      | Invalid \<Rightarrow> (''Not a valid rectangle or correct solution.'', False))"

text \<open>
  \<^verbatim>\<open>validateArrangement(silent)\<close>: the coefficients are read with \<^verbatim>\<open>parseInt(...) || 0\<close>;
  the only effect is the feedback message, and only when not silent. The function
  returns nothing; the model also returns the branch taken.
\<close>

definition validateArrangement :: "bool \<Rightarrow> app \<Rightarrow> app \<times> verdict" where
  "validateArrangement silent s =
     (let valA = js_or (coeff_a s) 0;
          valB = js_or (coeff_b s) 0;
          valC = js_or (coeff_c s) 0;
          v = validate_verdict (sizes s) (tiles s) valA valB valC
      in (if silent then s else showFeedback (fst (verdict_message v)) (snd (verdict_message v)) s, v))"


section \<open>render: the animation step\<close>

text \<open>The literal \<^verbatim>\<open>0.1\<close> is the double nearest to one tenth.\<close>

definition ease :: real where
  "ease = dbl (1 / 10)"

text \<open>
  One axis of one tile: the new coordinate and whether the axis moved. The test is
  \<^verbatim>\<open>Math.abs(t.x - t.targetX) > 0.5\<close>, the move \<^verbatim>\<open>t.x += (t.targetX - t.x) * ease\<close>,
  with the difference, the product and the sum rounded in turn. With an
  \<^verbatim>\<open>undefined\<close> position or target the distance is NaN, the test is false and the
  position takes the target's value.
\<close>

definition move_axis :: "real option \<Rightarrow> real option \<Rightarrow> real option \<times> bool" where
  "move_axis pos target =
     (case (pos, target) of
        (Some p, Some tg) \<Rightarrow>
          if \<bar>dbl (p - tg)\<bar> > 0.5 then (Some (dbl (p + dbl (dbl (tg - p) * ease))), True)
          else (target, False)
      | _ \<Rightarrow> (target, False))"

definition step_tile :: "tile \<Rightarrow> tile \<times> bool" where
  "step_tile t =
     (case (move_axis (tile_x t) (targetX t), move_axis (tile_y t) (targetY t)) of
        ((nx, movedX), (ny, movedY)) \<Rightarrow> (t\<lparr>tile_x := nx, tile_y := ny\<rparr>, movedX \<or> movedY))"

definition step_tiles :: "tile list \<Rightarrow> tile list \<times> bool" where
  "step_tiles ts = (map (\<lambda>t. fst (step_tile t)) ts, list_ex (\<lambda>t. snd (step_tile t)) ts)"

text \<open>
  What a call of \<^verbatim>\<open>render\<close> does besides drawing: nothing while not animating
  (\<open>Idle\<close>), a step that asks for another frame (\<open>StillActive\<close>), or the last step,
  which clears \<^verbatim>\<open>isAnimating\<close> and validates silently (\<open>Settled\<close>).
\<close>

datatype frame = Idle | StillActive | Settled

definition render :: "app \<Rightarrow> app \<times> frame" where
  "render s =
     (if isAnimating s then
        (case step_tiles (tiles s) of
           (ts, active) \<Rightarrow>
             if active then (s\<lparr>tiles := ts\<rparr>, StillActive)
             else (fst (validateArrangement True (s\<lparr>tiles := ts, isAnimating := False\<rparr>)), Settled))
      else (s, Idle))"

text \<open>The frame loop: \<open>k\<close> successive calls of \<^verbatim>\<open>render\<close>, with what each one did.\<close>

fun run_frames :: "nat \<Rightarrow> app \<Rightarrow> app \<times> frame list" where
  "run_frames 0 s = (s, [])"
| "run_frames (Suc k) s =
     (case render s of (s1, f) \<Rightarrow> (case run_frames k s1 of (s2, fs) \<Rightarrow> (s2, f # fs)))"

section \<open>solveAndAnimate\<close>

text \<open>
  The search loop \<^verbatim>\<open>for (let i = -limit; i <= limit; i++)\<close>. \<^verbatim>\<open>c / currentP\<close> and
  \<^verbatim>\<open>b / m\<close> are evaluated only behind a remainder test, where they are exact quotients.
\<close>

function search_loop :: "int \<Rightarrow> int \<Rightarrow> int \<Rightarrow> int \<Rightarrow> int \<Rightarrow> int \<Rightarrow> (int \<times> int) option" where
  "search_loop m n b c limit i =
     (if i \<le> limit then
        (if c \<noteq> 0 then
           (if i = 0 then search_loop m n b c limit (i + 1)
            else if js_rem c i \<noteq> Some 0 then search_loop m n b c limit (i + 1)
            else (let currentP = i; currentQ = c div currentP
                  in if (m * currentQ) + (n * currentP) = b then Some (currentP, currentQ)
                     else search_loop m n b c limit (i + 1)))
         else
           (if i \<noteq> 0 then search_loop m n b c limit (i + 1)
            else (let currentP = 0;
                      currentQ = (if m \<noteq> 0 \<and> js_rem b m = Some 0 then b div m else 0)
                  in if (m * currentQ) + (n * currentP) = b then Some (currentP, currentQ)
                     else search_loop m n b c limit (i + 1))))
      else None)"
  by pat_completeness auto
termination
  by (relation "measure (\<lambda>(m, n, b, c, limit, i). nat (limit + 1 - i))") auto

declare search_loop.simps [simp del]

definition solve_search :: "int \<Rightarrow> int \<Rightarrow> int \<Rightarrow> (int \<times> int) option" where
  "solve_search a b c =
     (case getClosestFactors a of
        (m, n) \<Rightarrow>
          (let limit = (if \<bar>c\<bar> = 0 then \<bar>b\<bar> else \<bar>c\<bar>)
           in search_loop m n b c (limit) (- limit)))"

text \<open>
  Target assignment. Each of the three passes of the source walks its slots in loop
  order and hands the next slot to the next tile of the kind, in the order of
  \<^verbatim>\<open>this.tiles\<close>, until the tiles of the kind run out; slots left over stay empty.
\<close>

fun assign :: "(tile \<Rightarrow> bool) \<Rightarrow> ('s \<Rightarrow> tile \<Rightarrow> tile) \<Rightarrow> 's list \<Rightarrow> tile list \<Rightarrow> tile list" where
  "assign kind place [] ts = ts"
| "assign kind place (sl # slots) [] = []"
| "assign kind place (sl # slots) (t # ts) =
     (if kind t then place sl t # assign kind place slots ts
      else t # assign kind place (sl # slots) ts)"

definition place_x2 :: "real \<Rightarrow> real \<Rightarrow> int \<times> int \<Rightarrow> tile \<Rightarrow> tile" where
  "place_x2 startX startY sl t =
     (case sl of (row, col) \<Rightarrow>
        t\<lparr>targetX := Some (startX + of_int col * xSize t),
          targetY := Some (startY + of_int row * xSize t)\<rparr>)"

definition place_x :: "nat \<times> real \<times> real \<Rightarrow> tile \<Rightarrow> tile" where
  "place_x sl t =
     (case sl of (rot, tgX, tgY) \<Rightarrow>
        (updateDimensions (t\<lparr>rotation := rot\<rparr>))\<lparr>targetX := Some tgX, targetY := Some tgY\<rparr>)"

definition place_one :: "real \<times> real \<Rightarrow> tile \<Rightarrow> tile" where
  "place_one sl t = (case sl of (tgX, tgY) \<Rightarrow> t\<lparr>targetX := Some tgX, targetY := Some tgY\<rparr>)"

definition getRank :: "tile \<Rightarrow> nat" where
  "getRank t = (case type t of X2_tile \<Rightarrow> 1 | X_tile \<Rightarrow> 2 | One_tile \<Rightarrow> 3)"

definition assign_targets :: "config \<Rightarrow> real \<Rightarrow> real \<Rightarrow> int \<Rightarrow> int \<Rightarrow> int \<Rightarrow> int \<Rightarrow> tile list \<Rightarrow> tile list" where
  "assign_targets cfg canvasW canvasH m n p q ts =
     (let X = size_x cfg; U = size_u cfg;
          gridW = of_int m * X;
          gridH = of_int n * X;
          totalW = (if p > 0 then gridW + of_int p * U else gridW);
          totalH = (if q > 0 then gridH + of_int q * U else gridH);
          startX = (canvasW - totalW) / 2;
          startY = (canvasH - totalH) / 2;
          pAbs = \<bar>p\<bar>; pIsNeg = (p < 0);
          vStartX = (if pIsNeg then startX + gridW - of_int pAbs * U else startX + gridW);
          qAbs = \<bar>q\<bar>; qIsNeg = (q < 0);
          hStartY = (if qIsNeg then startY + gridH - of_int qAbs * U else startY + gridH);
          x2_slots = concat (map (\<lambda>row. map (\<lambda>col. (row, col)) [0..m - 1]) [0..n - 1]);
          vertical = concat (map (\<lambda>col. map (\<lambda>row.
                         (1::nat, vStartX + of_int col * U, startY + of_int row * X)) [0..n - 1])
                       [0..pAbs - 1]);
          horizontal = concat (map (\<lambda>row. map (\<lambda>col.
                         (0::nat, startX + of_int col * X, hStartY + of_int row * U)) [0..m - 1])
                       [0..qAbs - 1]);
          uStartX = vStartX; uStartY = hStartY;
          one_slots = concat (map (\<lambda>row. map (\<lambda>col.
                         (uStartX + of_int col * U, uStartY + of_int row * U)) [0..pAbs - 1])
                       [0..qAbs - 1])
      in assign (\<lambda>t. type t = One_tile) place_one one_slots
           (assign (\<lambda>t. type t = X_tile) place_x (vertical @ horizontal)
              (assign (\<lambda>t. type t = X2_tile) (place_x2 startX startY) x2_slots ts)))"

definition UNSATISFIABLE :: string where
  "UNSATISFIABLE = ''This equation doesn't favor nice integer rectangles!''"

text \<open>
  \<^verbatim>\<open>solveAndAnimate\<close>: the coefficients are read with the defaults 1, 5 and 6, the
  tiles are generated, then the search runs. The model also returns the pair found
  (\<open>None\<close> for the early \<^verbatim>\<open>return\<close>). \<^verbatim>\<open>Array.prototype.sort\<close> is stable, as
  \<open>sort_key\<close> is.
\<close>

definition solveAndAnimate :: "app \<Rightarrow> app \<times> (int \<times> int) option" where
  "solveAndAnimate s =
     (let a = js_or (coeff_a s) 1;
          b = js_or (coeff_b s) 5;
          c = js_or (coeff_c s) 6;
          s1 = s\<lparr>tiles := generateTiles (sizes s) a b c\<rparr>
      in (case solve_search a b c of
            None \<Rightarrow> (showFeedback UNSATISFIABLE False s1, None)
          | Some (p, q) \<Rightarrow>
              (case getClosestFactors a of
                 (m, n) \<Rightarrow>
                   (s1\<lparr>tiles := sort_key getRank
                          (assign_targets (sizes s1) (canvas_width s1) (canvas_height s1)
                             m n p q (tiles s1)),
                       isAnimating := True\<rparr>, Some (p, q)))))"

section \<open>The bounding box in the words of the specification\<close>








section \<open>The alignment families in the words of the specification\<close>

text \<open>
  Two edges are within tolerance when \<open>near\<close> holds of them. Outer adjacency: the
  moving tile's left edge near the other's right edge, or the mirror on each of the
  four sides, together with a near perpendicular pair. Inner alignment: left edges near
  with a near horizontal pair, or top edges near with a near vertical pair.
\<close>

fun at_right :: "edges \<Rightarrow> edges \<Rightarrow> bool" where
  "at_right (tL, tR, tT, tB) (oL, oR, oT, oB) = (near tL oR \<and> (near tT oT \<or> near tB oB))"

fun at_left :: "edges \<Rightarrow> edges \<Rightarrow> bool" where
  "at_left (tL, tR, tT, tB) (oL, oR, oT, oB) = (near tR oL \<and> (near tT oT \<or> near tB oB))"

fun at_bottom :: "edges \<Rightarrow> edges \<Rightarrow> bool" where
  "at_bottom (tL, tR, tT, tB) (oL, oR, oT, oB) = (near tT oB \<and> (near tL oL \<or> near tR oR))"

fun at_top :: "edges \<Rightarrow> edges \<Rightarrow> bool" where
  "at_top (tL, tR, tT, tB) (oL, oR, oT, oB) = (near tB oT \<and> (near tL oL \<or> near tR oR))"

fun inner_left :: "edges \<Rightarrow> edges \<Rightarrow> bool" where
  "inner_left (tL, tR, tT, tB) (oL, oR, oT, oB) =
     (near tL oL \<and> (near tT oT \<or> near tB oB \<or> near tT oB \<or> near tB oT))"

fun inner_top :: "edges \<Rightarrow> edges \<Rightarrow> bool" where
  "inner_top (tL, tR, tT, tB) (oL, oR, oT, oB) =
     (near tT oT \<and> (near tL oL \<or> near tR oR \<or> near tL oR \<or> near tR oL))"

definition snap_match :: "tile \<Rightarrow> tile \<Rightarrow> bool" where
  "snap_match t other =
     (case (snap_edges t, snap_edges other) of
        (Some te, Some oe) \<Rightarrow>
          at_right te oe \<or> at_left te oe \<or> at_bottom te oe \<or> at_top te oe
          \<or> inner_left te oe \<or> inner_top te oe
      | _ \<Rightarrow> False)"

section \<open>Targets and distances in the words of the specification\<close>

text \<open>
  A tile has reached its target when its position equals the target. The remaining
  distance of an axis is the absolute difference of position and target; it is taken
  as 0 where either is \<^verbatim>\<open>undefined\<close>, since such an axis never moves.
\<close>

definition at_target :: "tile \<Rightarrow> bool" where
  "at_target t = (tile_x t = targetX t \<and> tile_y t = targetY t)"

definition axis_dist :: "real option \<Rightarrow> real option \<Rightarrow> real" where
  "axis_dist pos target = (case (pos, target) of (Some p, Some tg) \<Rightarrow> \<bar>p - tg\<bar> | _ \<Rightarrow> 0)"

definition tile_dist :: "tile \<Rightarrow> real" where
  "tile_dist t = max (axis_dist (tile_x t) (targetX t)) (axis_dist (tile_y t) (targetY t))"

text \<open>A target lies in the working range when its magnitude is at most \<open>10\<^sup>9\<close> pixels.\<close>

definition axis_range :: "real option \<Rightarrow> bool" where
  "axis_range target = (case target of Some tg \<Rightarrow> \<bar>tg\<bar> \<le> 10 ^ 9 | None \<Rightarrow> True)"

definition tile_range :: "tile \<Rightarrow> bool" where
  "tile_range t = (axis_range (targetX t) \<and> axis_range (targetY t))"

section \<open>Example arrangements\<close>

text \<open>
  The desktop scale, and a base rectangle of side \<open>x + 1\<close> built from positive tiles
  with one column cut by a negative bar and a negative unit: the area model of
  \<open>x (x + 1) = x\<^sup>2 + x\<close>. The second arrangement holds negative tiles only.
\<close>

definition desktop :: config where
  "desktop = \<lparr>size_x = 200, size_u = 25\<rparr>"




text \<open>A unit tile dropped over the bottom right corner of a square.\<close>

definition corner_example :: app where
  "corner_example =
     \<lparr>tiles = [new_tile desktop X2_tile 0 0 False, new_tile desktop One_tile 188 188 False],
      isAnimating = False, feedback = None, canvas_width = 800, canvas_height = 600,
      sizes = desktop, coeff_a = None, coeff_b = None, coeff_c = None\<rparr>"

text \<open>An animation in progress: one unit tile three pixels left of its target.\<close>

definition moving_example :: app where
  "moving_example =
     \<lparr>tiles = [(new_tile desktop One_tile 0 0 False)\<lparr>targetX := Some 3, targetY := Some 0\<rparr>],
      isAnimating = True, feedback = None, canvas_width = 800, canvas_height = 600,
      sizes = desktop, coeff_a = None, coeff_b = None, coeff_c = Some 1\<rparr>"

text \<open>The same tile at \<open>2\<^sup>5\<^sup>3\<close>, four pixels left of its target: doubles there are 2 apart.\<close>

definition big_example :: app where
  "big_example =
     \<lparr>tiles = [(new_tile desktop One_tile (2 ^ 53) 0 False)
                 \<lparr>targetX := Some (2 ^ 53 + 4), targetY := Some 0\<rparr>],
      isAnimating = True, feedback = None, canvas_width = 800, canvas_height = 600,
      sizes = desktop, coeff_a = None, coeff_b = None, coeff_c = Some 1\<rparr>"

text \<open>Three tiles far from one another.\<close>

definition apart_example :: app where
  "apart_example =
     \<lparr>tiles = [new_tile desktop X2_tile 0 0 False, new_tile desktop X_tile 400 300 False,
               new_tile desktop One_tile 700 50 False],
      isAnimating = False, feedback = None, canvas_width = 800, canvas_height = 600,
      sizes = desktop, coeff_a = None, coeff_b = None, coeff_c = None\<rparr>"

text \<open>A unit tile dropped just inside the top right corner of a square.\<close>

definition inner_example :: app where
  "inner_example =
     \<lparr>tiles = [new_tile desktop X2_tile 0 0 False, new_tile desktop One_tile 170 5 False],
      isAnimating = False, feedback = None, canvas_width = 800, canvas_height = 600,
      sizes = desktop, coeff_a = None, coeff_b = None, coeff_c = None\<rparr>"

text \<open>
  A unit tile dropped to the left of a square whose left edge is at the double
  nearest to 3.4.
\<close>

definition gap_example :: app where
  "gap_example =
     \<lparr>tiles = [new_tile desktop X2_tile (dbl (34 / 10)) 0 False,
               new_tile desktop One_tile (- 20) 0 False],
      isAnimating = False, feedback = None, canvas_width = 800, canvas_height = 600,
      sizes = desktop, coeff_a = None, coeff_b = None, coeff_c = None\<rparr>"

text \<open>The coefficient fields 1, 4, 0 of \<open>x\<^sup>2 + 4x\<close>, and three blank fields.\<close>

definition zero_constant_example :: app where
  "zero_constant_example =
     \<lparr>tiles = [], isAnimating = False, feedback = None, canvas_width = 800,
      canvas_height = 600, sizes = desktop,
      coeff_a = Some 1, coeff_b = Some 4, coeff_c = Some 0\<rparr>"


section \<open>Properties of the number helpers\<close>

lemma js_rem_zero_iff: "b \<noteq> 0 \<Longrightarrow> js_rem a b = Some 0 \<longleftrightarrow> b dvd a"
proof -
  assume b: "b \<noteq> 0"
  have "js_rem a b = Some 0 \<longleftrightarrow> sgn a * (\<bar>a\<bar> mod \<bar>b\<bar>) = 0"
    using b by (simp add: js_rem_def)
  also have "\<dots> \<longleftrightarrow> \<bar>a\<bar> mod \<bar>b\<bar> = 0"
    by (cases "a = 0") (auto simp: sgn_if)
  also have "\<dots> \<longleftrightarrow> \<bar>b\<bar> dvd \<bar>a\<bar>"
    by (simp add: dvd_eq_mod_eq_0)
  also have "\<dots> \<longleftrightarrow> b dvd a" by simp
  finally show ?thesis .
qed

lemma sqrt_from_bounds:
  "0 \<le> k \<Longrightarrow> k * k \<le> num \<Longrightarrow>
     k \<le> sqrt_from num k \<and> sqrt_from num k * sqrt_from num k \<le> num
       \<and> num < (sqrt_from num k + 1) * (sqrt_from num k + 1)"
proof (induction num k rule: sqrt_from.induct)
  case (1 num k)
  show ?case
  proof (cases "(k + 1) * (k + 1) \<le> num")
    case True
    with 1 have "k + 1 \<le> sqrt_from num (k + 1) \<and>
        sqrt_from num (k + 1) * sqrt_from num (k + 1) \<le> num \<and>
        num < (sqrt_from num (k + 1) + 1) * (sqrt_from num (k + 1) + 1)"
      by simp
    moreover have "sqrt_from num k = sqrt_from num (k + 1)"
      using True "1.prems" by (subst sqrt_from.simps) simp
    ultimately show ?thesis by simp
  next
    case False
    then have "sqrt_from num k = k"
      by (subst sqrt_from.simps) simp
    with False "1.prems" show ?thesis by simp
  qed
qed

lemma floor_sqrt_bounds:
  assumes "0 \<le> num"
  shows "0 \<le> floor_sqrt num" and "floor_sqrt num * floor_sqrt num \<le> num"
    and "num < (floor_sqrt num + 1) * (floor_sqrt num + 1)"
  using sqrt_from_bounds [of 0 num] assms by (simp_all add: floor_sqrt_def)

text \<open>The counting loop computes the floor of the real square root.\<close>

lemma floor_sqrt_is_floor:
  assumes "0 \<le> num"
  shows "floor_sqrt num = \<lfloor>sqrt (real_of_int num)\<rfloor>"
proof -
  let ?s = "floor_sqrt num"
  have s0: "0 \<le> ?s" and lo: "?s * ?s \<le> num" and hi: "num < (?s + 1) * (?s + 1)"
    using floor_sqrt_bounds [OF assms] by blast+
  have "real_of_int ?s * real_of_int ?s \<le> real_of_int num"
    using lo by (metis of_int_le_iff of_int_mult)
  then have "(real_of_int ?s)\<^sup>2 \<le> real_of_int num"
    by (simp add: power2_eq_square)
  then have a: "real_of_int ?s \<le> sqrt (real_of_int num)"
    by (rule real_le_rsqrt)
  have "real_of_int num < real_of_int (?s + 1) * real_of_int (?s + 1)"
    using hi by (metis of_int_less_iff of_int_mult)
  then have "real_of_int num < (real_of_int (?s + 1))\<^sup>2"
    by (simp add: power2_eq_square)
  moreover have "0 \<le> real_of_int (?s + 1)" using s0 by simp
  ultimately have b: "sqrt (real_of_int num) < real_of_int (?s + 1)"
    using real_less_lsqrt by metis
  show ?thesis using a b by linarith
qed

lemma factors_loop_found:
  assumes "0 < num" "0 < m"
  shows "case factors_loop num m of (f, g) \<Rightarrow>
           0 < f \<and> f \<le> m \<and> f dvd num \<and> g = num div f
             \<and> (\<forall>k. f < k \<and> k \<le> m \<longrightarrow> \<not> k dvd num)"
  using assms
proof (induction num m rule: factors_loop.induct)
  case (1 num m)
  show ?case
  proof (cases "m dvd num")
    case True
    then have "factors_loop num m = (m, num div m)"
      using "1.prems" by (subst factors_loop.simps) (simp add: js_rem_zero_iff)
    with True "1.prems" show ?thesis by auto
  next
    case False
    then have m1: "m \<noteq> 1" by auto
    with "1.prems" have pos: "0 < m - 1" by simp
    have step: "factors_loop num m = factors_loop num (m - 1)"
      using False "1.prems" by (subst factors_loop.simps) (simp add: js_rem_zero_iff)
    have "case factors_loop num (m - 1) of (f, g) \<Rightarrow>
           0 < f \<and> f \<le> m - 1 \<and> f dvd num \<and> g = num div f
             \<and> (\<forall>k. f < k \<and> k \<le> m - 1 \<longrightarrow> \<not> k dvd num)"
      using "1.IH" "1.prems" False pos by (simp add: js_rem_zero_iff)
    then show ?thesis
      using False unfolding step
      by (auto split: prod.splits) (metis False order_le_less zle_diff1_eq)
  qed
qed

lemma floor_sqrt_pos: "0 < num \<Longrightarrow> 0 < floor_sqrt num"
proof -
  assume p: "0 < num"
  have "0 \<le> floor_sqrt num" and "num < (floor_sqrt num + 1) * (floor_sqrt num + 1)"
    using floor_sqrt_bounds [of num] p by simp_all
  then show ?thesis using p by (cases "floor_sqrt num = 0") auto
qed

lemma le_sqrt_iff_floor:
  assumes "0 \<le> num" "0 \<le> k"
  shows "real_of_int k \<le> sqrt (real_of_int num) \<longleftrightarrow> k \<le> floor_sqrt num"
  using assms by (simp add: floor_sqrt_is_floor le_floor_iff)

section \<open>Lengths of the generated tile lists\<close>

lemma length_x2_row: "length (x2_row cfg neg k sx sy) = k"
  by (induction k arbitrary: sx) simp_all

lemma length_one_row: "length (one_row cfg neg k sx sy) = k"
  by (induction k arbitrary: sx) simp_all

lemma length_x_rows: "length (fst (x_rows cfg neg k i sx sy)) = k"
proof (induction k arbitrary: i sx sy)
  case 0
  then show ?case by simp
next
  case (Suc k)
  show ?case
  proof (cases "i mod 10 = 9")
    case True
    then show ?thesis
      using Suc [of "Suc i" 50 "sy + 110"] by (auto simp: Let_def split: prod.splits)
  next
    case False
    then show ?thesis
      using Suc [of "Suc i" "sx + 50" sy] by (auto simp: Let_def split: prod.splits)
  qed
qed

lemma length_generateTiles:
  "length (generateTiles cfg a b c) = nat \<bar>a\<bar> + nat \<bar>b\<bar> + nat \<bar>c\<bar>"
proof -
  obtain bars endY where x: "x_rows cfg (b < 0) (nat \<bar>b\<bar>) 0 50 170 = (bars, endY)"
    by (cases "x_rows cfg (b < 0) (nat \<bar>b\<bar>) 0 50 170")
  then have "length bars = nat \<bar>b\<bar>"
    using length_x_rows [of cfg "b < 0" "nat \<bar>b\<bar>" 0 50 170] by simp
  then show ?thesis
    by (simp add: generateTiles_def Let_def x length_x2_row length_one_row)
qed




section \<open>Rounding to double precision\<close>

lemma rne_error: "\<bar>real_of_int (rne q) - q\<bar> \<le> 1 / 2"
proof -
  have "real_of_int \<lfloor>q\<rfloor> \<le> q" "q < real_of_int \<lfloor>q\<rfloor> + 1" by linarith+
  then show ?thesis by (auto simp: rne_def Let_def)
qed

lemma ulp_down_props:
  "0 < s \<Longrightarrow> 0 < ulp_down x s k
     \<and> (2 ^ 52 * ulp_down x s k \<le> \<bar>x\<bar> \<or> ulp_down x s k = s / 2 ^ k)"
proof (induction x s k rule: ulp_down.induct)
  case (1 x s k)
  show ?case
  proof (cases "0 < k \<and> \<bar>x\<bar> < 2 ^ 52 * s")
    case True
    then have step: "ulp_down x s k = ulp_down x (s / 2) (k - 1)"
      by (subst ulp_down.simps) simp
    have "0 < s / 2" using "1.prems" by simp
    from "1.IH" [OF True this] have ih: "0 < ulp_down x (s / 2) (k - 1)"
      "2 ^ 52 * ulp_down x (s / 2) (k - 1) \<le> \<bar>x\<bar>
        \<or> ulp_down x (s / 2) (k - 1) = s / 2 / 2 ^ (k - 1)" by simp_all
    have e: "s / 2 / 2 ^ (k - 1) = s / 2 ^ k"
      using True by (cases k) simp_all
    have "2 ^ 52 * ulp_down x (s / 2) (k - 1) \<le> \<bar>x\<bar>
        \<or> ulp_down x (s / 2) (k - 1) = s / 2 ^ k"
      using ih(2) unfolding e .
    with ih(1) show ?thesis unfolding step by blast
  next
    case False
    then have r: "ulp_down x s k = s" by (subst ulp_down.simps) auto
    show ?thesis
    proof (cases "0 < k")
      case True
      with False have "2 ^ 52 * s \<le> \<bar>x\<bar>" by simp
      with "1.prems" show ?thesis unfolding r by simp
    next
      case False
      with "1.prems" show ?thesis unfolding r by simp
    qed
  qed
qed

lemma ulp_up_props:
  "0 < s \<Longrightarrow> 2 ^ 52 * s \<le> \<bar>x\<bar> \<Longrightarrow> 0 < ulp_up x s k \<and> 2 ^ 52 * ulp_up x s k \<le> \<bar>x\<bar>"
proof (induction x s k rule: ulp_up.induct)
  case (1 x s k)
  show ?case
  proof (cases "0 < k \<and> 2 ^ 53 * s \<le> \<bar>x\<bar>")
    case True
    then have step: "ulp_up x s k = ulp_up x (2 * s) (k - 1)"
      by (subst ulp_up.simps) simp
    have "0 < 2 * s" "2 ^ 52 * (2 * s) \<le> \<bar>x\<bar>" using "1.prems" True by simp_all
    from "1.IH" [OF True this] show ?thesis unfolding step .
  next
    case False
    then have "ulp_up x s k = s" by (subst ulp_up.simps) auto
    with "1.prems" show ?thesis by simp
  qed
qed

lemma ulp_bounds: "0 < ulp x \<and> (2 ^ 52 * ulp x \<le> \<bar>x\<bar> \<or> ulp x = 1 / 2 ^ 1074)"
proof (cases "2 ^ 53 \<le> \<bar>x\<bar>")
  case True
  then have "2 ^ 52 * 1 \<le> \<bar>x\<bar>" by simp
  from ulp_up_props [OF _ this, of 971] True show ?thesis by (simp add: ulp_def)
next
  case False
  with ulp_down_props [of 1 x 1074] show ?thesis by (simp add: ulp_def)
qed

lemma dbl_error_ulp: "\<bar>dbl x - x\<bar> \<le> ulp x / 2"
proof (cases "x = 0")
  case True
  then show ?thesis using ulp_bounds [of x] by (simp add: dbl_def)
next
  case False
  have u: "0 < ulp x" using ulp_bounds by blast
  have "dbl x - x = (real_of_int (rne (x / ulp x)) - x / ulp x) * ulp x"
    using False u by (simp add: dbl_def field_simps)
  then have "\<bar>dbl x - x\<bar> = \<bar>real_of_int (rne (x / ulp x)) - x / ulp x\<bar> * ulp x"
    using u by (simp add: abs_mult)
  also have "\<dots> \<le> 1 / 2 * ulp x"
    using u by (intro mult_right_mono rne_error) simp
  finally show ?thesis by simp
qed

text \<open>A rounding error is at most one part in \<open>10\<^sup>1\<^sup>5\<close> of the value, plus a tiny constant.\<close>

lemma dbl_error: "\<bar>dbl x - x\<bar> \<le> \<bar>x\<bar> / 10 ^ 15 + 1 / 10 ^ 300"
proof -
  have u: "0 < ulp x" "2 ^ 52 * ulp x \<le> \<bar>x\<bar> \<or> ulp x = 1 / 2 ^ 1074"
    using ulp_bounds by blast+
  have "ulp x / 2 \<le> \<bar>x\<bar> / 10 ^ 15 + 1 / 10 ^ 300"
    using u(2)
  proof
    assume "2 ^ 52 * ulp x \<le> \<bar>x\<bar>"
    then have "ulp x \<le> \<bar>x\<bar> / 2 ^ 52" by (simp add: field_simps)
    then have "ulp x / 2 \<le> \<bar>x\<bar> / 2 ^ 53" by simp
    also have "\<dots> \<le> \<bar>x\<bar> / 10 ^ 15" by (intro divide_left_mono) simp_all
    finally show ?thesis by simp
  next
    assume "ulp x = 1 / 2 ^ 1074"
    then have "ulp x / 2 = 1 / 2 ^ 1075" by simp
    also have "\<dots> \<le> (1::real) / 10 ^ 300" by (intro divide_left_mono) simp_all
    finally show ?thesis by simp
  qed
  with dbl_error_ulp [of x] show ?thesis by linarith
qed

text \<open>Integers below \<open>2\<^sup>5\<^sup>3\<close> in magnitude are doubles.\<close>

lemma rne_of_int: "rne (of_int m) = m"
  by (simp add: rne_def)

lemma ulp_down_pow2: "\<exists>j. ulp_down x s k = s / 2 ^ j"
proof (induction x s k rule: ulp_down.induct)
  case (1 x s k)
  show ?case
  proof (cases "0 < k \<and> \<bar>x\<bar> < 2 ^ 52 * s")
    case True
    then have step: "ulp_down x s k = ulp_down x (s / 2) (k - 1)"
      by (subst ulp_down.simps) simp
    from "1.IH" [OF True] obtain j where "ulp_down x (s / 2) (k - 1) = s / 2 / 2 ^ j" by blast
    then have "ulp_down x s k = s / 2 ^ Suc j" unfolding step by simp
    then show ?thesis by blast
  next
    case False
    then have "ulp_down x s k = s / 2 ^ 0" by (subst ulp_down.simps) auto
    then show ?thesis by blast
  qed
qed

lemma dbl_of_int:
  assumes "\<bar>real_of_int n\<bar> < 2 ^ 53"
  shows "dbl (of_int n) = of_int n"
proof (cases "n = 0")
  case True
  then show ?thesis by (simp add: dbl_def)
next
  case False
  from ulp_down_pow2 [of "of_int n" 1 1074] obtain j where
    j: "ulp_down (of_int n) 1 1074 = 1 / 2 ^ j" by blast
  have u: "ulp (of_int n) = 1 / 2 ^ j" using assms by (simp add: ulp_def j)
  have "real_of_int n / ulp (of_int n) = of_int (n * 2 ^ j)" by (simp add: u)
  then have "rne (real_of_int n / ulp (of_int n)) = n * 2 ^ j"
    by (simp only: rne_of_int)
  then show ?thesis using False by (simp add: dbl_def u)
qed

lemma dbl_numeral: "(numeral k :: real) < 2 ^ 53 \<Longrightarrow> dbl (numeral k) = numeral k"
  using dbl_of_int [of "numeral k"] by simp

lemma dbl_neg_numeral: "(numeral k :: real) < 2 ^ 53 \<Longrightarrow> dbl (- numeral k) = - numeral k"
  using dbl_of_int [of "- numeral k"] by simp

lemma dbl_zero: "dbl 0 = 0"
  by (simp add: dbl_def)

lemma dbl_one: "dbl 1 = 1"
  using dbl_of_int [of 1] by simp

section \<open>C4: the factor-splitting step\<close>

text \<open>
  Claim C4, as the code has it. For every integer \<open>a \<noteq> 0\<close>, \<open>getClosestFactors a\<close>
  returns the pair \<open>(m, n)\<close> where \<open>m\<close> is the largest positive integer with
  \<open>m \<le> \<surd>|a|\<close> that divides \<open>|a|\<close>, and \<open>n = |a| / m\<close>. For \<open>a = 0\<close> the loop body
  never runs and the function returns \<open>(1, 0)\<close>, not \<open>(0, 0)\<close>.
\<close>

theorem getClosestFactors_spec:
  "(a \<noteq> 0 \<longrightarrow>
      (case getClosestFactors a of
         (m, n) \<Rightarrow>
           0 < m \<and> real_of_int m \<le> sqrt (real_of_int \<bar>a\<bar>) \<and> m dvd \<bar>a\<bar>
           \<and> n = \<bar>a\<bar> div m \<and> m * n = \<bar>a\<bar>
           \<and> (\<forall>k. 0 < k \<and> real_of_int k \<le> sqrt (real_of_int \<bar>a\<bar>) \<and> k dvd \<bar>a\<bar> \<longrightarrow> k \<le> m)))
   \<and> (a = 0 \<longrightarrow> getClosestFactors a = (1, 0))"
proof (intro conjI impI)
  assume "a = 0"
  then show "getClosestFactors a = (1, 0)"
    by (simp add: getClosestFactors_def floor_sqrt_def sqrt_from.simps factors_loop.simps)
next
  assume a: "a \<noteq> 0"
  let ?num = "\<bar>a\<bar>"
  let ?s = "floor_sqrt ?num"
  obtain m n where mn: "factors_loop ?num ?s = (m, n)" by (cases "factors_loop ?num ?s")
  have num: "0 < ?num" using a by simp
  have s: "0 < ?s" using num by (rule floor_sqrt_pos)
  have f: "0 < m" "m \<le> ?s" "m dvd ?num" "n = ?num div m"
    and mx: "\<And>k. m < k \<Longrightarrow> k \<le> ?s \<Longrightarrow> \<not> k dvd ?num"
    using factors_loop_found [OF num s] mn by auto
  have le: "real_of_int m \<le> sqrt (real_of_int ?num)"
    using f le_sqrt_iff_floor [of ?num m] by simp
  have prod: "m * n = ?num" using f by simp
  have best: "k \<le> m" if "0 < k \<and> real_of_int k \<le> sqrt (real_of_int ?num) \<and> k dvd ?num" for k
  proof (rule ccontr)
    assume "\<not> k \<le> m"
    then have "m < k" by simp
    moreover have "k \<le> ?s" using that le_sqrt_iff_floor [of ?num k] by simp
    ultimately show False using mx that by blast
  qed
  show "case getClosestFactors a of
         (m, n) \<Rightarrow>
           0 < m \<and> real_of_int m \<le> sqrt (real_of_int \<bar>a\<bar>) \<and> m dvd \<bar>a\<bar>
           \<and> n = \<bar>a\<bar> div m \<and> m * n = \<bar>a\<bar>
           \<and> (\<forall>k. 0 < k \<and> real_of_int k \<le> sqrt (real_of_int \<bar>a\<bar>) \<and> k dvd \<bar>a\<bar> \<longrightarrow> k \<le> m)"
    unfolding getClosestFactors_def mn using f(1,3,4) le prod best by simp
qed

theorem getClosestFactors_spec_witness:
  "(12::int) \<noteq> 0 \<and> getClosestFactors 12 = (3, 4) \<and> (3::int) dvd \<bar>12\<bar> \<and> (4::int) = \<bar>12\<bar> div 3
     \<and> real_of_int 3 \<le> sqrt (real_of_int \<bar>12\<bar>)"
proof -
  have e: "getClosestFactors 12 = (3, 4)" by code_simp
  show ?thesis using getClosestFactors_spec [of 12] unfolding e by simp
qed

theorem getClosestFactors_zero_counterexample:
  "getClosestFactors 0 \<noteq> (0, 0)"
  by (simp add: getClosestFactors_def floor_sqrt_def sqrt_from.simps factors_loop.simps)

section \<open>C3: the bounded search of the solver\<close>

lemma search_loop_nonzero:
  assumes c: "c \<noteq> 0"
  shows "case search_loop m n b c limit i of
           None \<Rightarrow> (\<forall>p. i \<le> p \<and> p \<le> limit \<longrightarrow> \<not> (p \<noteq> 0 \<and> p dvd c \<and> m * (c div p) + n * p = b))
         | Some (p, q) \<Rightarrow>
             i \<le> p \<and> p \<le> limit \<and> p \<noteq> 0 \<and> p dvd c \<and> m * (c div p) + n * p = b \<and> q = c div p
             \<and> (\<forall>p'. i \<le> p' \<and> p' < p \<longrightarrow> \<not> (p' \<noteq> 0 \<and> p' dvd c \<and> m * (c div p') + n * p' = b))"
  using c
proof (induction m n b c limit i rule: search_loop.induct)
  case (1 m n b c limit i)
  let ?ok = "\<lambda>p. p \<noteq> 0 \<and> p dvd c \<and> m * (c div p) + n * p = b"
  show ?case
  proof (cases "i \<le> limit")
    case False
    then have "search_loop m n b c limit i = None"
      by (subst search_loop.simps) simp
    with False show ?thesis by simp
  next
    case le: True
    show ?thesis
    proof (cases "?ok i")
      case True
      then have "search_loop m n b c limit i = Some (i, c div i)"
        using le "1.prems" by (subst search_loop.simps) (simp add: js_rem_zero_iff)
      with True le show ?thesis by simp
    next
      case False
      have step: "search_loop m n b c limit i = search_loop m n b c limit (i + 1)"
        using False le "1.prems"
        by (subst search_loop.simps) (auto simp: js_rem_zero_iff Let_def)
      have ih: "case search_loop m n b c limit (i + 1) of
           None \<Rightarrow> (\<forall>p. i + 1 \<le> p \<and> p \<le> limit \<longrightarrow> \<not> ?ok p)
         | Some (p, q) \<Rightarrow>
             i + 1 \<le> p \<and> p \<le> limit \<and> p \<noteq> 0 \<and> p dvd c \<and> m * (c div p) + n * p = b \<and> q = c div p
             \<and> (\<forall>p'. i + 1 \<le> p' \<and> p' < p \<longrightarrow> \<not> ?ok p')"
      proof (cases "i = 0")
        case True
        then show ?thesis using "1.IH"(1) le "1.prems" by simp
      next
        case i0: False
        show ?thesis
        proof (cases "i dvd c")
          case True
          with False i0 have "m * (c div i) + n * i \<noteq> b" by simp
          then show ?thesis
            using "1.IH"(3) [OF le "1.prems" i0 _ refl refl] True i0 "1.prems"
            by (simp add: js_rem_zero_iff)
        next
          case False
          then show ?thesis
            using "1.IH"(2) [OF le "1.prems" i0] i0 "1.prems" by (simp add: js_rem_zero_iff)
        qed
      qed
      have cover: "\<And>p. i \<le> p \<Longrightarrow> p = i \<or> i + 1 \<le> p" by auto
      show ?thesis
      proof (cases "search_loop m n b c limit (i + 1)")
        case None
        with ih have "\<forall>p. i + 1 \<le> p \<and> p \<le> limit \<longrightarrow> \<not> ?ok p" by simp
        with False have "\<forall>p. i \<le> p \<and> p \<le> limit \<longrightarrow> \<not> ?ok p"
          using cover by blast
        with None step show ?thesis by simp
      next
        case (Some pq)
        obtain p q where pq: "pq = (p, q)" by (cases pq)
        from ih Some pq have h: "i + 1 \<le> p" "p \<le> limit" "?ok p" "q = c div p"
          "\<forall>p'. i + 1 \<le> p' \<and> p' < p \<longrightarrow> \<not> ?ok p'" by simp_all
        from h(5) False have "\<forall>p'. i \<le> p' \<and> p' < p \<longrightarrow> \<not> ?ok p'"
          using cover by blast
        with h Some pq step show ?thesis by simp
      qed
    qed
  qed
qed

lemma search_loop_zero_after:
  "0 < i \<Longrightarrow> search_loop m n b 0 limit i = None"
proof (induction m n b "0::int" limit i rule: search_loop.induct)
  case (1 m n b limit i)
  show ?case
  proof (cases "i \<le> limit")
    case True
    then have "search_loop m n b 0 limit i = search_loop m n b 0 limit (i + 1)"
      using "1.prems" by (subst search_loop.simps) simp
    also have "\<dots> = None" using "1.hyps"(4) True "1.prems" by simp
    finally show ?thesis .
  next
    case False
    then show ?thesis by (subst search_loop.simps) simp
  qed
qed

lemma search_loop_zero:
  "i \<le> 0 \<Longrightarrow> 0 \<le> limit \<Longrightarrow>
     search_loop m n b 0 limit i =
       (let q = (if m \<noteq> 0 \<and> m dvd b then b div m else 0)
        in if m * q + n * 0 = b then Some (0, q) else None)"
proof (induction m n b "0::int" limit i rule: search_loop.induct)
  case (1 m n b limit i)
  show ?case
  proof (cases "i = 0")
    case True
    have "search_loop m n b 0 limit 1 = None" by (rule search_loop_zero_after) simp
    then show ?thesis
      using True "1.prems"
      by (subst search_loop.simps) (auto simp: js_rem_zero_iff Let_def)
  next
    case False
    then have "search_loop m n b 0 limit i = search_loop m n b 0 limit (i + 1)"
      using "1.prems" by (subst search_loop.simps) simp
    also have "\<dots> = (let q = (if m \<noteq> 0 \<and> m dvd b then b div m else 0)
        in if m * q + n * 0 = b then Some (0, q) else None)"
      using "1.hyps"(4) False "1.prems" by simp
    finally show ?thesis .
  qed
qed


text \<open>
  The search as a function of the coefficients it is given, with \<open>(m, n)\<close> the pair of
  \<open>getClosestFactors a\<close>: for \<open>c \<noteq> 0\<close> it runs \<open>p\<close> upwards through \<open>[-|c|, |c|]\<close>,
  passes over \<open>p = 0\<close> and every \<open>p\<close> that does not divide \<open>c\<close>, takes \<open>q = c / p\<close> and
  returns the first pair with \<open>m\<cdot>q + n\<cdot>p = b\<close>; it reports failure (\<open>None\<close>) exactly
  when the range holds none. For \<open>c = 0\<close> only \<open>p = 0\<close> is tried, with \<open>q = b / m\<close> if
  \<open>m \<noteq> 0\<close> and \<open>m\<close> divides \<open>b\<close>, else \<open>q = 0\<close>. The search is a total function.
\<close>

lemma solve_search_cases:
  "(case getClosestFactors a of
      (m, n) \<Rightarrow>
        (c \<noteq> 0 \<longrightarrow>
           (solve_search a b c = None \<longleftrightarrow>
              (\<forall>p. - \<bar>c\<bar> \<le> p \<and> p \<le> \<bar>c\<bar> \<longrightarrow> \<not> (p \<noteq> 0 \<and> p dvd c \<and> m * (c div p) + n * p = b)))
           \<and> (\<forall>p q. solve_search a b c = Some (p, q) \<longleftrightarrow>
                 (- \<bar>c\<bar> \<le> p \<and> p \<le> \<bar>c\<bar> \<and> p \<noteq> 0 \<and> p dvd c \<and> q = c div p \<and> m * q + n * p = b
                  \<and> (\<forall>p'. - \<bar>c\<bar> \<le> p' \<and> p' < p \<longrightarrow>
                         \<not> (p' \<noteq> 0 \<and> p' dvd c \<and> m * (c div p') + n * p' = b)))))
        \<and> (c = 0 \<longrightarrow>
             solve_search a b c =
               (let q = (if m \<noteq> 0 \<and> m dvd b then b div m else 0)
                in if m * q + n * 0 = b then Some (0, q) else None)))"
proof -
  obtain m n where mn: "getClosestFactors a = (m, n)" by (cases "getClosestFactors a")
  let ?ok = "\<lambda>p. p \<noteq> 0 \<and> p dvd c \<and> m * (c div p) + n * p = b"
  have zero: "solve_search a b c =
               (let q = (if m \<noteq> 0 \<and> m dvd b then b div m else 0)
                in if m * q + n * 0 = b then Some (0, q) else None)" if "c = 0"
    using that search_loop_zero [where i = "- \<bar>b\<bar>" and limit = "\<bar>b\<bar>" and m = m and n = n and b = b]
    by (simp add: solve_search_def mn Let_def)
  have nonzero: "(solve_search a b c = None \<longleftrightarrow>
              (\<forall>p. - \<bar>c\<bar> \<le> p \<and> p \<le> \<bar>c\<bar> \<longrightarrow> \<not> ?ok p))
           \<and> (\<forall>p q. solve_search a b c = Some (p, q) \<longleftrightarrow>
                 (- \<bar>c\<bar> \<le> p \<and> p \<le> \<bar>c\<bar> \<and> p \<noteq> 0 \<and> p dvd c \<and> q = c div p \<and> m * q + n * p = b
                  \<and> (\<forall>p'. - \<bar>c\<bar> \<le> p' \<and> p' < p \<longrightarrow> \<not> ?ok p')))" if c: "c \<noteq> 0"
  proof -
    let ?r = "search_loop m n b c \<bar>c\<bar> (- \<bar>c\<bar>)"
    have r: "solve_search a b c = ?r" using c by (simp add: solve_search_def mn Let_def)
    note ch = search_loop_nonzero [OF c, where m = m and n = n and b = b and limit = "\<bar>c\<bar>" and i = "- \<bar>c\<bar>"]
    have none: "?r = None \<longleftrightarrow> (\<forall>p. - \<bar>c\<bar> \<le> p \<and> p \<le> \<bar>c\<bar> \<longrightarrow> \<not> ?ok p)"
    proof (cases ?r)
      case None
      with ch show ?thesis by simp
    next
      case (Some pq)
      with ch show ?thesis by (cases pq) auto
    qed
    have some: "?r = Some (p, q) \<longleftrightarrow>
                 (- \<bar>c\<bar> \<le> p \<and> p \<le> \<bar>c\<bar> \<and> p \<noteq> 0 \<and> p dvd c \<and> q = c div p \<and> m * q + n * p = b
                  \<and> (\<forall>p'. - \<bar>c\<bar> \<le> p' \<and> p' < p \<longrightarrow> \<not> ?ok p'))" (is "?lhs \<longleftrightarrow> ?rhs") for p q
    proof
      assume ?lhs
      with ch show ?rhs by simp
    next
      assume rhs: ?rhs
      then have "\<not> (\<forall>p. - \<bar>c\<bar> \<le> p \<and> p \<le> \<bar>c\<bar> \<longrightarrow> \<not> ?ok p)" by blast
      with none obtain p1 q1 where s: "?r = Some (p1, q1)" by (cases ?r) auto
      with ch have h: "- \<bar>c\<bar> \<le> p1" "p1 \<le> \<bar>c\<bar>" "?ok p1" "q1 = c div p1"
        "\<forall>p'. - \<bar>c\<bar> \<le> p' \<and> p' < p1 \<longrightarrow> \<not> ?ok p'" by simp_all
      have "\<not> p1 < p" using rhs h(1,3) by blast
      moreover have "\<not> p < p1" using rhs h(5) by blast
      ultimately have "p1 = p" by simp
      with h(4) rhs s show ?lhs by simp
    qed
    show ?thesis unfolding r using none some by blast
  qed
  show ?thesis unfolding mn using zero nonzero by simp
qed

lemma solveAndAnimate_search:
  "snd (solveAndAnimate s) =
     solve_search (js_or (coeff_a s) 1) (js_or (coeff_b s) 5) (js_or (coeff_c s) 6)"
  by (cases "solve_search (js_or (coeff_a s) 1) (js_or (coeff_b s) 5) (js_or (coeff_c s) 6)")
     (auto simp: solveAndAnimate_def Let_def split: prod.splits)

text \<open>
Claim C3 fails through the solve operation when a coefficient field holds 0. The loop
  has a branch for \<open>c = 0\<close>, and on the coefficients 1, 4, 0 of \<open>x\<^sup>2 + 4x\<close> the search
  returns \<open>p = 0\<close>, \<open>q = 4\<close>. \<^verbatim>\<open>solveAndAnimate\<close> reads the constant with
  \<^verbatim>\<open>parseInt(...) || 6\<close>, which takes the parsed 0 for a missing value: it searches
  with \<open>c = 6\<close> instead, finds no pair, reports failure and leaves the eleven tiles of
  \<open>x\<^sup>2 + 4x + 6\<close> on the canvas.
\<close>

theorem solver_zero_constant:
  "coeff_a zero_constant_example = Some 1
   \<and> coeff_b zero_constant_example = Some 4
   \<and> coeff_c zero_constant_example = Some 0
   \<and> solve_search 1 4 0 = Some (0, 4)
   \<and> snd (solveAndAnimate zero_constant_example) = None
   \<and> feedback (fst (solveAndAnimate zero_constant_example)) = Some (UNSATISFIABLE, False)
   \<and> tiles (fst (solveAndAnimate zero_constant_example)) = generateTiles desktop 1 4 6
   \<and> length (generateTiles desktop 1 4 6) = 11"
proof -
  have a: "solve_search 1 4 0 = Some (0, 4)" by code_simp
  have b: "solve_search 1 4 6 = None" by code_simp
  have c: "length (generateTiles desktop 1 4 6) = 11" by (simp add: length_generateTiles)
  show ?thesis
    using a c
    by (simp add: zero_constant_example_def solveAndAnimate_def js_or_def b showFeedback_def)
qed

section \<open>C1: the solver without a solution\<close>

lemma new_tile_no_target:
  "targetX (new_tile cfg ty px py neg) = None \<and> targetY (new_tile cfg ty px py neg) = None"
  by (cases ty) (simp_all add: new_tile_def updateDimensions_def)

lemma x2_row_no_target:
  "t \<in> set (x2_row cfg neg k sx sy) \<Longrightarrow> targetX t = None \<and> targetY t = None"
  by (induction k arbitrary: sx) (auto simp: new_tile_no_target)

lemma one_row_no_target:
  "t \<in> set (one_row cfg neg k sx sy) \<Longrightarrow> targetX t = None \<and> targetY t = None"
  by (induction k arbitrary: sx) (auto simp: new_tile_no_target)

lemma x_rows_no_target:
  "t \<in> set (fst (x_rows cfg neg k i sx sy)) \<Longrightarrow> targetX t = None \<and> targetY t = None"
proof (induction k arbitrary: i sx sy)
  case 0
  then show ?case by simp
next
  case (Suc k)
  then show ?case
    by (auto simp: new_tile_no_target Let_def split: prod.splits if_splits) (metis fst_conv)+
qed

lemma generateTiles_no_target:
  "t \<in> set (generateTiles cfg a b c) \<Longrightarrow> targetX t = None \<and> targetY t = None"
  unfolding generateTiles_def Let_def
  by (auto split: prod.splits dest: x2_row_no_target one_row_no_target)
     (metis fst_conv x_rows_no_target)+

text \<open>
Claim C1, as the code has it. \<^verbatim>\<open>solveAndAnimate\<close> calls \<^verbatim>\<open>generateTiles\<close> before it
  searches. When the search finds no pair, the operation shows the message
  "This equation doesn't favor nice integer rectangles!" (a text no verdict of the
  validator uses) and returns early: the arrangement is then the freshly generated
  tile set of the coefficients, whatever it was before, no tile has a target, and
  nothing else of the state changes.
\<close>

theorem solve_unsatisfiable:
  assumes "snd (solveAndAnimate s) = None"
  shows "fst (solveAndAnimate s) =
           s\<lparr>tiles := generateTiles (sizes s) (js_or (coeff_a s) 1) (js_or (coeff_b s) 5)
                        (js_or (coeff_c s) 6),
             feedback := Some (UNSATISFIABLE, False)\<rparr>
         \<and> (\<forall>t \<in> set (tiles (fst (solveAndAnimate s))). targetX t = None \<and> targetY t = None)
         \<and> fst (verdict_message v) \<noteq> UNSATISFIABLE"
proof -
  let ?a = "js_or (coeff_a s) 1" and ?b = "js_or (coeff_b s) 5" and ?c = "js_or (coeff_c s) 6"
  have none: "solve_search ?a ?b ?c = None"
    using assms by (auto simp: solveAndAnimate_def Let_def split: option.splits prod.splits)
  then have eq: "fst (solveAndAnimate s) =
           s\<lparr>tiles := generateTiles (sizes s) ?a ?b ?c, feedback := Some (UNSATISFIABLE, False)\<rparr>"
    by (simp add: solveAndAnimate_def Let_def showFeedback_def)
  have msg: "fst (verdict_message v) \<noteq> UNSATISFIABLE"
    by (cases v) (simp_all add: verdict_message_def UNSATISFIABLE_def)
  show ?thesis unfolding eq using msg by (auto dest: generateTiles_no_target)
qed

theorem solve_unsatisfiable_witness:
  "snd (solveAndAnimate
          \<lparr>tiles = [], isAnimating = False, feedback = None, canvas_width = 800,
           canvas_height = 600, sizes = \<lparr>size_x = 200, size_u = 25\<rparr>,
           coeff_a = Some 1, coeff_b = Some 1, coeff_c = Some 1\<rparr>) = None
   \<and> feedback (fst (solveAndAnimate
          \<lparr>tiles = [], isAnimating = False, feedback = None, canvas_width = 800,
           canvas_height = 600, sizes = \<lparr>size_x = 200, size_u = 25\<rparr>,
           coeff_a = Some 1, coeff_b = Some 1, coeff_c = Some 1\<rparr>)) = Some (UNSATISFIABLE, False)
   \<and> fst (verdict_message Invalid) \<noteq> UNSATISFIABLE"
proof -
  let ?s = "\<lparr>tiles = [], isAnimating = False, feedback = None, canvas_width = 800,
           canvas_height = 600, sizes = \<lparr>size_x = 200, size_u = 25\<rparr>,
           coeff_a = Some 1, coeff_b = Some 1, coeff_c = Some 1\<rparr>"
  have u: "solve_search 1 1 1 = None" by code_simp
  have n: "snd (solveAndAnimate ?s) = None"
    by (simp add: solveAndAnimate_def js_or_def u)
  show ?thesis using solve_unsatisfiable [OF n, of Invalid] n by simp
qed

theorem solve_unsatisfiable_counterexample:
  "snd (solveAndAnimate
          \<lparr>tiles = [\<lparr>type = One_tile, tile_x = Some 300, tile_y = Some 300, isNegative = False,
                      rotation = 0, isDragging = False, uSize = 25, xSize = 200, tile_w = 25,
                      tile_h = 25, targetX = None, targetY = None\<rparr>], isAnimating = False,
           feedback = None, canvas_width = 800, canvas_height = 600,
           sizes = \<lparr>size_x = 200, size_u = 25\<rparr>,
           coeff_a = Some 1, coeff_b = Some 1, coeff_c = Some 1\<rparr>) = None
   \<and> tiles (fst (solveAndAnimate
          \<lparr>tiles = [\<lparr>type = One_tile, tile_x = Some 300, tile_y = Some 300, isNegative = False,
                      rotation = 0, isDragging = False, uSize = 25, xSize = 200, tile_w = 25,
                      tile_h = 25, targetX = None, targetY = None\<rparr>], isAnimating = False,
           feedback = None, canvas_width = 800, canvas_height = 600,
           sizes = \<lparr>size_x = 200, size_u = 25\<rparr>,
           coeff_a = Some 1, coeff_b = Some 1, coeff_c = Some 1\<rparr>))
     \<noteq> [\<lparr>type = One_tile, tile_x = Some 300, tile_y = Some 300, isNegative = False,
                      rotation = 0, isDragging = False, uSize = 25, xSize = 200, tile_w = 25,
                      tile_h = 25, targetX = None, targetY = None\<rparr>]"
proof -
  have u: "solve_search 1 1 1 = None" by code_simp
  show ?thesis
    by (simp add: solveAndAnimate_def js_or_def u generateTiles_def showFeedback_def)
qed

section \<open>C9: coefficients that do not parse\<close>




section \<open>C10: validation is read-only\<close>

text \<open>
Claim C10. \<^verbatim>\<open>validateArrangement\<close> leaves the tile list as it is, in both modes:
  silent, the whole state is unchanged; not silent, only the feedback message is
  written.
\<close>

theorem validate_read_only:
  "tiles (fst (validateArrangement silent s)) = tiles s
   \<and> fst (validateArrangement True s) = s
   \<and> fst (validateArrangement False s) =
       s\<lparr>feedback := Some (verdict_message (snd (validateArrangement False s)))\<rparr>"
  by (simp add: validateArrangement_def Let_def showFeedback_def)

section \<open>C6: grid-dimension inference\<close>

lemma list_has_minimum:
  fixes f :: "'a \<Rightarrow> real"
  shows "cs \<noteq> [] \<Longrightarrow> \<exists>m \<in> set cs. \<forall>d \<in> set cs. f m \<le> f d"
proof (induction cs)
  case Nil
  then show ?case by simp
next
  case (Cons c cs)
  show ?case
  proof (cases "cs = []")
    case True
    then show ?thesis by simp
  next
    case False
    with Cons obtain m where m: "m \<in> set cs" "\<forall>d \<in> set cs. f m \<le> f d" by auto
    show ?thesis
    proof (cases "f c \<le> f m")
      case True
      with m have "\<forall>d \<in> set (c # cs). f c \<le> f d" by fastforce
      then show ?thesis by auto
    next
      case False
      with m have "\<forall>d \<in> set (c # cs). f m \<le> f d" by fastforce
      with m(1) show ?thesis by auto
    qed
  qed
qed

lemma grid_fold_some:
  "foldl (grid_step X U px) (Some e, best) cs =
     (case find (\<lambda>c. grid_err X U px c < e \<and> (\<forall>d \<in> set cs. grid_err X U px c \<le> grid_err X U px d)) cs of
        None \<Rightarrow> (Some e, best)
      | Some c \<Rightarrow> (Some (grid_err X U px c), c))"
proof (induction cs arbitrary: e best)
  case Nil
  then show ?case by simp
next
  case (Cons c cs)
  let ?f = "grid_err X U px"
  let ?Q = "\<lambda>x. ?f x < e \<and> (\<forall>d \<in> set (c # cs). ?f x \<le> ?f d)"
  show ?case
  proof (cases "?f c < e")
    case lt: True
    let ?Q' = "\<lambda>x. ?f x < ?f c \<and> (\<forall>d \<in> set cs. ?f x \<le> ?f d)"
    have st: "grid_step X U px (Some e, best) c = (Some (?f c), c)"
      using lt by (cases best) (simp add: grid_step_def)
    have lhs: "foldl (grid_step X U px) (Some e, best) (c # cs) =
        (case find ?Q' cs of None \<Rightarrow> (Some (?f c), c) | Some x \<Rightarrow> (Some (?f x), x))"
      by (simp only: foldl_Cons st Cons.IH)
    show ?thesis
    proof (cases "\<forall>d \<in> set cs. ?f c \<le> ?f d")
      case True
      then have n: "find ?Q' cs = None"
        by (auto simp: find_None_iff)
      have qc: "?Q c" using True lt by simp
      have "find ?Q (c # cs) = (if ?Q c then Some c else find ?Q cs)" by (rule find.simps(2))
      also have "\<dots> = Some c" by (rule if_P [OF qc])
      finally have "find ?Q (c # cs) = Some c" .
      then show ?thesis unfolding lhs n by simp
    next
      case False
      then obtain d0 where d0: "d0 \<in> set cs" "?f d0 < ?f c" by auto
      have eq: "find ?Q' cs = find ?Q cs"
      proof (rule find_cong [OF refl])
        fix x assume "x \<in> set cs"
        show "?Q' x = ?Q x"
          using lt d0 by fastforce
      qed
      have "\<not> ?Q c" using False by simp
      then have r: "find ?Q (c # cs) = find ?Q cs"
        using find.simps(2) [of ?Q c cs] if_not_P [of "?Q c"] by metis
      have "find ?Q' cs \<noteq> None"
      proof -
        have "cs \<noteq> []" using d0 by auto
        then obtain k where k: "k \<in> set cs" "\<forall>d \<in> set cs. ?f k \<le> ?f d"
          using list_has_minimum [of cs ?f] by blast
        then have "?f k \<le> ?f d0" using d0 by blast
        then have "k \<in> set cs \<and> ?Q' k" using d0 k by force
        then show ?thesis unfolding find_None_iff by blast
      qed
      then obtain x where x: "find ?Q' cs = Some x" by auto
      then have x': "find ?Q cs = Some x" using eq by simp
      show ?thesis unfolding lhs r x x' by simp
    qed
  next
    case ge: False
    let ?Q' = "\<lambda>x. ?f x < e \<and> (\<forall>d \<in> set cs. ?f x \<le> ?f d)"
    have st: "grid_step X U px (Some e, best) c = (Some e, best)"
      using ge by (cases best) (simp add: grid_step_def)
    have lhs: "foldl (grid_step X U px) (Some e, best) (c # cs) =
        (case find ?Q' cs of None \<Rightarrow> (Some e, best) | Some x \<Rightarrow> (Some (?f x), x))"
      by (simp only: foldl_Cons st Cons.IH)
    have eq: "find ?Q' cs = find ?Q cs"
    proof (rule find_cong [OF refl])
      fix x assume "x \<in> set cs"
      show "?Q' x = ?Q x"
        using ge by fastforce
    qed
    have "\<not> ?Q c" using ge by simp
    then have r: "find ?Q (c # cs) = find ?Q cs"
        using find.simps(2) [of ?Q c cs] if_not_P [of "?Q c"] by metis
    show ?thesis unfolding lhs r eq by (rule refl)
  qed
qed

lemma grid_fold_none:
  "foldl (grid_step X U px) (None, a0, b0) (c # cs) =
     (case find (\<lambda>x. \<forall>d \<in> set (c # cs). grid_err X U px x \<le> grid_err X U px d) (c # cs) of
        None \<Rightarrow> (Some (grid_err X U px c), c)
      | Some x \<Rightarrow> (Some (grid_err X U px x), x))"
proof -
  let ?f = "grid_err X U px"
  let ?Q = "\<lambda>x. \<forall>d \<in> set (c # cs). ?f x \<le> ?f d"
  let ?Q' = "\<lambda>x. ?f x < ?f c \<and> (\<forall>d \<in> set cs. ?f x \<le> ?f d)"
  have st: "grid_step X U px (None, a0, b0) c = (Some (?f c), c)"
    by (simp add: grid_step_def)
  have lhs: "foldl (grid_step X U px) (None, a0, b0) (c # cs) =
        (case find ?Q' cs of None \<Rightarrow> (Some (?f c), c) | Some x \<Rightarrow> (Some (?f x), x))"
    by (simp only: foldl_Cons st grid_fold_some)
  show ?thesis
  proof (cases "\<forall>d \<in> set cs. ?f c \<le> ?f d")
    case True
    then have n: "find ?Q' cs = None"
      by (auto simp: find_None_iff)
    have qc: "?Q c" using True by simp
    have "find ?Q (c # cs) = (if ?Q c then Some c else find ?Q cs)" by (rule find.simps(2))
    also have "\<dots> = Some c" by (rule if_P [OF qc])
    finally have "find ?Q (c # cs) = Some c" .
    then show ?thesis unfolding lhs n by simp
  next
    case False
    then obtain d0 where d0: "d0 \<in> set cs" "?f d0 < ?f c" by auto
    have eq: "find ?Q' cs = find ?Q cs"
    proof (rule find_cong [OF refl])
      fix x assume "x \<in> set cs"
      show "?Q' x = ?Q x"
        using d0 by fastforce
    qed
    have "\<not> ?Q c" using False by simp
    then have r: "find ?Q (c # cs) = find ?Q cs"
        using find.simps(2) [of ?Q c cs] if_not_P [of "?Q c"] by metis
    show ?thesis unfolding lhs r eq by (rule refl)
  qed
qed

lemma grid_candidates_set: "set grid_candidates = {1..5} \<times> {0..10}"
  by (simp add: grid_candidates_def)

lemma grid_candidates_cons: "\<exists>cs. grid_candidates = (1, 0) # cs"
  by (simp add: grid_candidates_def upto.simps)

text \<open>
Claim C6, as the code has it. For every measured pixel length, grid-dimension
  inference searches \<open>countSquare\<close> over 1 to 5 (zero is not tried) and \<open>countUnit\<close>
  over 0 to 10. It takes the first pair, in iteration order, that minimises
  \<open>|countSquare\<cdot>squareLength + countUnit\<cdot>unitLength - measuredPixelLength|\<close>, returns
  it if that error is below 30 pixels and returns \<open>(0, 0)\<close> otherwise.
\<close>

theorem getGridDimensions_spec:
  "set grid_candidates = {1..5} \<times> {0..10}
   \<and> (\<exists>i < length grid_candidates.
         (\<forall>d \<in> set grid_candidates.
            grid_err X U pixels (grid_candidates ! i) \<le> grid_err X U pixels d)
         \<and> (\<forall>j < i. grid_err X U pixels (grid_candidates ! i)
                       < grid_err X U pixels (grid_candidates ! j))
         \<and> getGridDimensions X U pixels =
             (if grid_err X U pixels (grid_candidates ! i) < 30 then grid_candidates ! i
              else (0, 0)))"
proof -
  let ?f = "grid_err X U pixels"
  let ?P = "\<lambda>x. \<forall>d \<in> set grid_candidates. ?f x \<le> ?f d"
  obtain cs where cs: "grid_candidates = (1, 0) # cs" using grid_candidates_cons by blast
  have "grid_candidates \<noteq> []" unfolding cs by simp
  then obtain m0 where "m0 \<in> set grid_candidates" "?P m0"
    using list_has_minimum [of grid_candidates ?f] by blast
  then have "find ?P grid_candidates \<noteq> None" unfolding find_None_iff by blast
  then obtain m where fm: "find ?P grid_candidates = Some m" by auto
  then obtain i where i: "i < length grid_candidates" "?P (grid_candidates ! i)"
    "m = grid_candidates ! i" "\<forall>j < i. \<not> ?P (grid_candidates ! j)"
    by (auto simp: find_Some_iff)
  have strict: "?f (grid_candidates ! i) < ?f (grid_candidates ! j)" if "j < i" for j
  proof -
    from that i(4) obtain d where d: "d \<in> set grid_candidates" "?f d < ?f (grid_candidates ! j)"
      by (meson not_le)
    with i(2) show ?thesis by fastforce
  qed
  have "foldl (grid_step X U pixels) (None, 0, 0) grid_candidates = (Some (?f m), m)"
    using grid_fold_none [of X U pixels 0 0 "(1, 0)" cs] fm unfolding cs [symmetric] by simp
  then have "getGridDimensions X U pixels = (if ?f m < 30 then m else (0, 0))"
    by (cases m) (simp add: getGridDimensions_def)
  with i strict show ?thesis using grid_candidates_set by blast
qed

theorem getGridDimensions_spec_witness:
  "getGridDimensions 200 25 225 = (1, 1) \<and> grid_err 200 25 225 (1, 1) = 0
   \<and> (1, 1) \<in> set grid_candidates"
proof -
  have e: "getGridDimensions 200 25 225 = (1, 1)" by code_simp
  have g: "grid_err 200 25 225 (1, 1) = 0" by (simp add: grid_err_def)
  show ?thesis using getGridDimensions_spec [of 200 25 225] e g by auto
qed

theorem getGridDimensions_zero_counterexample:
  "getGridDimensions 200 25 25 = (0, 0) \<and> \<bar>of_int 0 * 200 + of_int 1 * 25 - (25::real)\<bar> < 30"
proof -
  have e: "getGridDimensions 200 25 25 = (0, 0)" by code_simp
  show ?thesis using e by simp
qed

section \<open>C5: the validator without negative tiles\<close>
















section \<open>C2: the validator with tiles of both signs\<close>



section \<open>C7: the snap resolver\<close>

lemma snap_pair_None_iff: "snap_pair t other = None \<longleftrightarrow> \<not> snap_match t other"
proof (cases "snap_edges t")
  case None
  then show ?thesis by (simp add: snap_pair_def snap_match_def)
next
  case te: (Some te)
  show ?thesis
  proof (cases "snap_edges other")
    case None
    then show ?thesis by (simp add: snap_pair_def snap_match_def te)
  next
    case oe: (Some oe)
    obtain tL tR tT tB where t: "te = (tL, tR, tT, tB)" by (cases te)
    obtain oL oR oT oB where o: "oe = (oL, oR, oT, oB)" by (cases oe)
    show ?thesis
      by (auto simp: snap_pair_def snap_match_def te oe t o orelse_def split: option.splits
            if_splits)
  qed
qed

text \<open>
  Where a matching tile puts the moving tile: the first family that matches, in the
  order of the blocks, decides both coordinates.
\<close>

lemma snap_pair_position:
  assumes te: "snap_edges t = Some (tL, tR, tT, tB)"
    and oe: "snap_edges other = Some (oL, oR, oT, oB)"
    and m: "snap_match t other"
  shows "snap_pair t other = Some
     (if at_right (tL, tR, tT, tB) (oL, oR, oT, oB) then oR
      else if at_left (tL, tR, tT, tB) (oL, oR, oT, oB) then dbl (oL - tile_w t)
      else if at_bottom (tL, tR, tT, tB) (oL, oR, oT, oB)
              \<or> at_top (tL, tR, tT, tB) (oL, oR, oT, oB)
           then (if near tL oL then oL else dbl (oR - tile_w t))
      else if inner_left (tL, tR, tT, tB) (oL, oR, oT, oB) then oL
      else dbl (oR - tile_w t),
      if at_right (tL, tR, tT, tB) (oL, oR, oT, oB)
           \<or> at_left (tL, tR, tT, tB) (oL, oR, oT, oB)
      then (if near tT oT then oT else dbl (oB - tile_h t))
      else if at_bottom (tL, tR, tT, tB) (oL, oR, oT, oB) then oB
      else if at_top (tL, tR, tT, tB) (oL, oR, oT, oB) then dbl (oT - tile_h t)
      else if inner_left (tL, tR, tT, tB) (oL, oR, oT, oB)
           then (if near tT oT then oT else dbl (oB - tile_h t))
      else oT)"
  using m by (auto simp: snap_pair_def snap_match_def te oe orelse_def)

lemma snap_loop_none:
  "(\<forall>k < length rest. j + k \<noteq> i \<longrightarrow> snap_pair t (rest ! k) = None) \<Longrightarrow>
     snap_loop t i j rest = t"
proof (induction rest arbitrary: j)
  case Nil
  then show ?case by simp
next
  case (Cons other rest)
  have tl: "\<forall>k < length rest. Suc j + k \<noteq> i \<longrightarrow> snap_pair t (rest ! k) = None"
  proof (intro allI impI)
    fix k assume "k < length rest" "Suc j + k \<noteq> i"
    then show "snap_pair t (rest ! k) = None"
      using Cons.prems [rule_format, of "Suc k"] by simp
  qed
  have hd: "j \<noteq> i \<Longrightarrow> snap_pair t other = None"
    using Cons.prems [rule_format, of 0] by simp
  show ?case using Cons.IH [OF tl] hd by (cases "j = i") simp_all
qed

lemma snap_loop_first:
  "k < length rest \<Longrightarrow> j + k \<noteq> i \<Longrightarrow> snap_pair t (rest ! k) = Some (nx, ny) \<Longrightarrow>
   (\<forall>k' < k. j + k' \<noteq> i \<longrightarrow> snap_pair t (rest ! k') = None) \<Longrightarrow>
     snap_loop t i j rest = t\<lparr>tile_x := Some nx, tile_y := Some ny\<rparr>"
proof (induction rest arbitrary: j k)
  case Nil
  then show ?case by simp
next
  case (Cons other rest)
  show ?case
  proof (cases k)
    case 0
    with Cons.prems show ?thesis by simp
  next
    case (Suc k1)
    have hd: "j \<noteq> i \<Longrightarrow> snap_pair t other = None"
      using Cons.prems(4) [rule_format, of 0] Suc by simp
    have tl: "\<forall>k' < k1. Suc j + k' \<noteq> i \<longrightarrow> snap_pair t (rest ! k') = None"
    proof (intro allI impI)
      fix k' assume "k' < k1" "Suc j + k' \<noteq> i"
      then show "snap_pair t (rest ! k') = None"
        using Cons.prems(4) [rule_format, of "Suc k'"] Suc by simp
    qed
    have "snap_loop t i (Suc j) rest = t\<lparr>tile_x := Some nx, tile_y := Some ny\<rparr>"
      using Cons.IH [of k1 "Suc j"] Cons.prems(1,2,3) Suc tl by simp
    then show ?thesis using hd by (cases "j = i") simp_all
  qed
qed

lemma snap_match_edges:
  "snap_match t other \<Longrightarrow>
     \<exists>tL tR tT tB oL oR oT oB.
        snap_edges t = Some (tL, tR, tT, tB) \<and> snap_edges other = Some (oL, oR, oT, oB)"
  by (cases "snap_edges t"; cases "snap_edges other") (auto simp: snap_match_def)

text \<open>
  A rounded difference misses the exact one by at most one part in \<open>10\<^sup>1\<^sup>5\<close>: this is how
  far from flush a tile placed to the left of or above another can be.
\<close>

lemma snap_gap_bound: "\<bar>dbl (oL - w) + w - oL\<bar> \<le> \<bar>oL - w\<bar> / 10 ^ 15 + 1 / 10 ^ 300"
proof -
  have "dbl (oL - w) + w - oL = dbl (oL - w) - (oL - w)" by simp
  then show ?thesis using dbl_error [of "oL - w"] by simp
qed

text \<open>
Claim C7, as the code has it. The snap resolver changes at most the position of the
  moving tile, and by one adjustment: the one for the first tile in arrangement order
  (other than the moving tile) that matches an alignment family within the tolerance of
  15, edges and distances being taken as the program computes them. If no tile matches,
  the state is unchanged. For the chosen tile the families are tried in the order right,
  left, bottom, top of the other tile, then left edges aligned, then top edges aligned,
  and the first that matches decides alone. To the right of the other tile the moving
  tile's left edge is put at the other's right edge, below it the top edge at the
  other's bottom edge; to the left and above, the position is the rounded difference
  \<open>oL - w\<close>, \<open>oT - h\<close> of the other's edge and the moving tile's size, so that the
  facing edges meet up to one rounding error. The perpendicular axis takes the first
  aligned pair: tops before bottoms, left edges before right edges.
\<close>

theorem snapToNeighbors_spec:
  assumes "i < length (tiles s)"
  shows "((\<forall>j < length (tiles s). j \<noteq> i \<longrightarrow> \<not> snap_match (tiles s ! i) (tiles s ! j)) \<longrightarrow>
            snapToNeighbors i s = s)
   \<and> (\<forall>j < length (tiles s).
         j \<noteq> i \<and> snap_match (tiles s ! i) (tiles s ! j)
         \<and> (\<forall>k < j. k \<noteq> i \<longrightarrow> \<not> snap_match (tiles s ! i) (tiles s ! k)) \<longrightarrow>
         (\<exists>tL tR tT tB oL oR oT oB.
            snap_edges (tiles s ! i) = Some (tL, tR, tT, tB)
            \<and> snap_edges (tiles s ! j) = Some (oL, oR, oT, oB)
            \<and> snapToNeighbors i s =
                s\<lparr>tiles := (tiles s)[i := (tiles s ! i)
                  \<lparr>tile_x := Some
                     (if at_right (tL, tR, tT, tB) (oL, oR, oT, oB) then oR
                      else if at_left (tL, tR, tT, tB) (oL, oR, oT, oB)
                           then dbl (oL - tile_w (tiles s ! i))
                      else if at_bottom (tL, tR, tT, tB) (oL, oR, oT, oB)
                              \<or> at_top (tL, tR, tT, tB) (oL, oR, oT, oB)
                           then (if near tL oL then oL else dbl (oR - tile_w (tiles s ! i)))
                      else if inner_left (tL, tR, tT, tB) (oL, oR, oT, oB) then oL
                      else dbl (oR - tile_w (tiles s ! i))),
                    tile_y := Some
                     (if at_right (tL, tR, tT, tB) (oL, oR, oT, oB)
                           \<or> at_left (tL, tR, tT, tB) (oL, oR, oT, oB)
                      then (if near tT oT then oT else dbl (oB - tile_h (tiles s ! i)))
                      else if at_bottom (tL, tR, tT, tB) (oL, oR, oT, oB) then oB
                      else if at_top (tL, tR, tT, tB) (oL, oR, oT, oB)
                           then dbl (oT - tile_h (tiles s ! i))
                      else if inner_left (tL, tR, tT, tB) (oL, oR, oT, oB)
                           then (if near tT oT then oT else dbl (oB - tile_h (tiles s ! i)))
                      else oT)\<rparr>]\<rparr>))"
proof (intro conjI impI allI)
  assume none: "\<forall>j < length (tiles s). j \<noteq> i \<longrightarrow> \<not> snap_match (tiles s ! i) (tiles s ! j)"
  have "snap_loop (tiles s ! i) i 0 (tiles s) = tiles s ! i"
    using none by (intro snap_loop_none) (simp add: snap_pair_None_iff)
  then show "snapToNeighbors i s = s"
    using assms by (simp add: snapToNeighbors_def)
next
  fix j
  assume j: "j < length (tiles s)"
  assume h: "j \<noteq> i \<and> snap_match (tiles s ! i) (tiles s ! j)
         \<and> (\<forall>k < j. k \<noteq> i \<longrightarrow> \<not> snap_match (tiles s ! i) (tiles s ! k))"
  let ?t = "tiles s ! i"
  from h have m: "snap_match ?t (tiles s ! j)" by blast
  from snap_match_edges [OF m] obtain tL tR tT tB oL oR oT oB where
    te: "snap_edges ?t = Some (tL, tR, tT, tB)"
    and oe: "snap_edges (tiles s ! j) = Some (oL, oR, oT, oB)" by blast
  note sp = snap_pair_position [OF te oe m]
  have first: "\<forall>k' < j. 0 + k' \<noteq> i \<longrightarrow> snap_pair ?t (tiles s ! k') = None"
    using h by (simp add: snap_pair_None_iff)
  have ne: "0 + j \<noteq> i" using h by simp
  note lp = snap_loop_first [OF j ne sp first]
  have eq: "snapToNeighbors i s = s\<lparr>tiles := (tiles s)[i := snap_loop ?t i 0 (tiles s)]\<rparr>"
    using assms by (simp add: snapToNeighbors_def)
  show "\<exists>tL tR tT tB oL oR oT oB.
            snap_edges (tiles s ! i) = Some (tL, tR, tT, tB)
            \<and> snap_edges (tiles s ! j) = Some (oL, oR, oT, oB)
            \<and> snapToNeighbors i s =
                s\<lparr>tiles := (tiles s)[i := (tiles s ! i)
                  \<lparr>tile_x := Some
                     (if at_right (tL, tR, tT, tB) (oL, oR, oT, oB) then oR
                      else if at_left (tL, tR, tT, tB) (oL, oR, oT, oB)
                           then dbl (oL - tile_w (tiles s ! i))
                      else if at_bottom (tL, tR, tT, tB) (oL, oR, oT, oB)
                              \<or> at_top (tL, tR, tT, tB) (oL, oR, oT, oB)
                           then (if near tL oL then oL else dbl (oR - tile_w (tiles s ! i)))
                      else if inner_left (tL, tR, tT, tB) (oL, oR, oT, oB) then oL
                      else dbl (oR - tile_w (tiles s ! i))),
                    tile_y := Some
                     (if at_right (tL, tR, tT, tB) (oL, oR, oT, oB)
                           \<or> at_left (tL, tR, tT, tB) (oL, oR, oT, oB)
                      then (if near tT oT then oT else dbl (oB - tile_h (tiles s ! i)))
                      else if at_bottom (tL, tR, tT, tB) (oL, oR, oT, oB) then oB
                      else if at_top (tL, tR, tT, tB) (oL, oR, oT, oB)
                           then dbl (oT - tile_h (tiles s ! i))
                      else if inner_left (tL, tR, tT, tB) (oL, oR, oT, oB)
                           then (if near tT oT then oT else dbl (oB - tile_h (tiles s ! i)))
                      else oT)\<rparr>]\<rparr>"
    unfolding eq lp using te oe by blast
qed

theorem snapToNeighbors_spec_witness:
  "(1::nat) < length (tiles corner_example)
   \<and> snap_match (tiles corner_example ! 1) (tiles corner_example ! 0)
   \<and> snapToNeighbors 1 corner_example =
       corner_example\<lparr>tiles := (tiles corner_example)
          [1 := (tiles corner_example ! 1)\<lparr>tile_x := Some 200, tile_y := Some 175\<rparr>]\<rparr>
   \<and> snap_match (tiles inner_example ! 1) (tiles inner_example ! 0)
   \<and> snapToNeighbors 1 inner_example =
       inner_example\<lparr>tiles := (tiles inner_example)
          [1 := (tiles inner_example ! 1)\<lparr>tile_x := Some 175, tile_y := Some 0\<rparr>]\<rparr>
   \<and> length (tiles apart_example) = 3
   \<and> \<not> snap_match (tiles apart_example ! 2) (tiles apart_example ! 0)
   \<and> \<not> snap_match (tiles apart_example ! 2) (tiles apart_example ! 1)
   \<and> snapToNeighbors 2 apart_example = apart_example"
proof -
  note ev = near_def snapDist_def dbl_numeral dbl_neg_numeral dbl_zero
  note tl = desktop_def new_tile_def updateDimensions_def snap_edges_def
  have len: "(1::nat) < length (tiles corner_example)"
    by (simp add: corner_example_def)
  have pre: "0 < length (tiles corner_example)"
    by (simp add: corner_example_def)
  have et: "snap_edges (tiles corner_example ! 1) = Some (188, 213, 188, 213)"
    by (simp add: corner_example_def tl ev)
  have eo: "snap_edges (tiles corner_example ! 0) = Some (0, 200, 0, 200)"
    by (simp add: corner_example_def tl ev)
  have sz: "tile_w (tiles corner_example ! 1) = 25" "tile_h (tiles corner_example ! 1) = 25"
    by (simp_all add: corner_example_def tl)
  have m: "snap_match (tiles corner_example ! 1) (tiles corner_example ! 0)"
    unfolding snap_match_def et eo by (simp add: ev)
  have hyp: "0 \<noteq> (1::nat) \<and> snap_match (tiles corner_example ! 1) (tiles corner_example ! 0)
         \<and> (\<forall>k < 0. k \<noteq> 1 \<longrightarrow> \<not> snap_match (tiles corner_example ! 1) (tiles corner_example ! k))"
    using m by simp
  note st = snapToNeighbors_spec [OF len, THEN conjunct2, THEN spec, of 0, THEN mp, OF pre,
      THEN mp, OF hyp]
  have corner: "snapToNeighbors 1 corner_example =
       corner_example\<lparr>tiles := (tiles corner_example)
          [1 := (tiles corner_example ! 1)\<lparr>tile_x := Some 200, tile_y := Some 175\<rparr>]\<rparr>"
  proof -
    from st obtain tL tR tT tB oL oR oT oB where
      a: "snap_edges (tiles corner_example ! 1) = Some (tL, tR, tT, tB)"
      and b: "snap_edges (tiles corner_example ! 0) = Some (oL, oR, oT, oB)"
      and c: "snapToNeighbors 1 corner_example =
                corner_example\<lparr>tiles := (tiles corner_example)[1 := (tiles corner_example ! 1)
                  \<lparr>tile_x := Some
                     (if at_right (tL, tR, tT, tB) (oL, oR, oT, oB) then oR
                      else if at_left (tL, tR, tT, tB) (oL, oR, oT, oB)
                           then dbl (oL - tile_w (tiles corner_example ! 1))
                      else if at_bottom (tL, tR, tT, tB) (oL, oR, oT, oB)
                              \<or> at_top (tL, tR, tT, tB) (oL, oR, oT, oB)
                           then (if near tL oL then oL else dbl (oR - tile_w (tiles corner_example ! 1)))
                      else if inner_left (tL, tR, tT, tB) (oL, oR, oT, oB) then oL
                      else dbl (oR - tile_w (tiles corner_example ! 1))),
                    tile_y := Some
                     (if at_right (tL, tR, tT, tB) (oL, oR, oT, oB)
                           \<or> at_left (tL, tR, tT, tB) (oL, oR, oT, oB)
                      then (if near tT oT then oT else dbl (oB - tile_h (tiles corner_example ! 1)))
                      else if at_bottom (tL, tR, tT, tB) (oL, oR, oT, oB) then oB
                      else if at_top (tL, tR, tT, tB) (oL, oR, oT, oB)
                           then dbl (oT - tile_h (tiles corner_example ! 1))
                      else if inner_left (tL, tR, tT, tB) (oL, oR, oT, oB)
                           then (if near tT oT then oT else dbl (oB - tile_h (tiles corner_example ! 1)))
                      else oT)\<rparr>]\<rparr>"
      by (elim exE conjE)
    from a et have t: "tL = 188" "tR = 213" "tT = 188" "tB = 213" by simp_all
    from b eo have o: "oL = 0" "oR = 200" "oT = 0" "oB = 200" by simp_all
    have x: "(if at_right (188, 213, 188, 213) (0, 200, 0, 200) then (200::real) else u) = 200"
      for u by (simp add: ev)
    have y: "(if at_right (188, 213, 188, 213) (0, 200, 0, 200) \<or> P
               then (if near 188 0 then 0 else dbl (200 - 25)) else u) = 175" for u P
      by (simp add: ev)
    show ?thesis using c unfolding t o sz x y .
  qed
  have len2: "(1::nat) < length (tiles inner_example)"
    by (simp add: inner_example_def)
  have pre2: "0 < length (tiles inner_example)"
    by (simp add: inner_example_def)
  have et2: "snap_edges (tiles inner_example ! 1) = Some (170, 195, 5, 30)"
    by (simp add: inner_example_def tl ev)
  have eo2: "snap_edges (tiles inner_example ! 0) = Some (0, 200, 0, 200)"
    by (simp add: inner_example_def tl ev)
  have sz2: "tile_w (tiles inner_example ! 1) = 25" "tile_h (tiles inner_example ! 1) = 25"
    by (simp_all add: inner_example_def tl)
  have m2: "snap_match (tiles inner_example ! 1) (tiles inner_example ! 0)"
    unfolding snap_match_def et2 eo2 by (simp add: ev)
  have hyp2: "0 \<noteq> (1::nat) \<and> snap_match (tiles inner_example ! 1) (tiles inner_example ! 0)
         \<and> (\<forall>k < 0. k \<noteq> 1 \<longrightarrow> \<not> snap_match (tiles inner_example ! 1) (tiles inner_example ! k))"
    using m2 by simp
  note st2 = snapToNeighbors_spec [OF len2, THEN conjunct2, THEN spec, of 0, THEN mp, OF pre2,
      THEN mp, OF hyp2]
  have inner: "snapToNeighbors 1 inner_example =
       inner_example\<lparr>tiles := (tiles inner_example)
          [1 := (tiles inner_example ! 1)\<lparr>tile_x := Some 175, tile_y := Some 0\<rparr>]\<rparr>"
  proof -
    from st2 obtain tL tR tT tB oL oR oT oB where
      a: "snap_edges (tiles inner_example ! 1) = Some (tL, tR, tT, tB)"
      and b: "snap_edges (tiles inner_example ! 0) = Some (oL, oR, oT, oB)"
      and c: "snapToNeighbors 1 inner_example =
                inner_example\<lparr>tiles := (tiles inner_example)[1 := (tiles inner_example ! 1)
                  \<lparr>tile_x := Some
                     (if at_right (tL, tR, tT, tB) (oL, oR, oT, oB) then oR
                      else if at_left (tL, tR, tT, tB) (oL, oR, oT, oB)
                           then dbl (oL - tile_w (tiles inner_example ! 1))
                      else if at_bottom (tL, tR, tT, tB) (oL, oR, oT, oB)
                              \<or> at_top (tL, tR, tT, tB) (oL, oR, oT, oB)
                           then (if near tL oL then oL else dbl (oR - tile_w (tiles inner_example ! 1)))
                      else if inner_left (tL, tR, tT, tB) (oL, oR, oT, oB) then oL
                      else dbl (oR - tile_w (tiles inner_example ! 1))),
                    tile_y := Some
                     (if at_right (tL, tR, tT, tB) (oL, oR, oT, oB)
                           \<or> at_left (tL, tR, tT, tB) (oL, oR, oT, oB)
                      then (if near tT oT then oT else dbl (oB - tile_h (tiles inner_example ! 1)))
                      else if at_bottom (tL, tR, tT, tB) (oL, oR, oT, oB) then oB
                      else if at_top (tL, tR, tT, tB) (oL, oR, oT, oB)
                           then dbl (oT - tile_h (tiles inner_example ! 1))
                      else if inner_left (tL, tR, tT, tB) (oL, oR, oT, oB)
                           then (if near tT oT then oT else dbl (oB - tile_h (tiles inner_example ! 1)))
                      else oT)\<rparr>]\<rparr>"
      by (elim exE conjE)
    from a et2 have t: "tL = 170" "tR = 195" "tT = 5" "tB = 30" by simp_all
    from b eo2 have o: "oL = 0" "oR = 200" "oT = 0" "oB = 200" by simp_all
    have r: "\<not> at_right (170, 195, 5, 30) (0, 200, 0, 200)"
      "\<not> at_left (170, 195, 5, 30) (0, 200, 0, 200)"
      "\<not> at_bottom (170, 195, 5, 30) (0, 200, 0, 200)"
      "\<not> at_top (170, 195, 5, 30) (0, 200, 0, 200)"
      "\<not> inner_left (170, 195, 5, 30) (0, 200, 0, 200)"
      by (simp_all add: ev)
    have x: "dbl (200 - 25) = 175" by (simp add: ev)
    show ?thesis using c unfolding t o sz2 by (simp only: r x if_False simp_thms)
  qed
  have len3: "length (tiles apart_example) = 3"
    by (simp add: apart_example_def)
  have e2: "snap_edges (tiles apart_example ! 2) = Some (700, 725, 50, 75)"
    by (simp add: apart_example_def tl ev)
  have e1: "snap_edges (tiles apart_example ! 1) = Some (400, 600, 300, 325)"
    by (simp add: apart_example_def tl ev)
  have e0: "snap_edges (tiles apart_example ! 0) = Some (0, 200, 0, 200)"
    by (simp add: apart_example_def tl ev)
  have n0: "\<not> snap_match (tiles apart_example ! 2) (tiles apart_example ! 0)"
    unfolding snap_match_def e2 e0 by (simp add: ev)
  have n1: "\<not> snap_match (tiles apart_example ! 2) (tiles apart_example ! 1)"
    unfolding snap_match_def e2 e1 by (simp add: ev)
  have none: "\<forall>j < length (tiles apart_example).
      j \<noteq> 2 \<longrightarrow> \<not> snap_match (tiles apart_example ! 2) (tiles apart_example ! j)"
  proof (intro allI impI)
    fix j assume "j < length (tiles apart_example)" "j \<noteq> 2"
    then have "j = 0 \<or> j = 1" unfolding len3 by arith
    with n0 n1 show "\<not> snap_match (tiles apart_example ! 2) (tiles apart_example ! j)" by blast
  qed
  have i3: "2 < length (tiles apart_example)" unfolding len3 by simp
  have apart: "snapToNeighbors 2 apart_example = apart_example"
    using snapToNeighbors_spec [OF i3, THEN conjunct1, THEN mp, OF none] .
  show ?thesis using len m corner m2 inner len3 n0 n1 apart by blast
qed

text \<open>
  Two arrangements against the claim as the specification words it. In the first the
  unit tile's top is within tolerance of the square's bottom, and their right edges
  are too, but the block for the right side comes first and the tile ends beside the
  square, 25 above its bottom edge. In the second the tile is put to the left of the
  square, and its recomputed right edge is not the square's left edge.
\<close>

theorem snap_priority_counterexample:
  "snap_edges (tiles corner_example ! 1) = Some (188, 213, 188, 213)
   \<and> snap_edges (tiles corner_example ! 0) = Some (0, 200, 0, 200)
   \<and> at_bottom (188, 213, 188, 213) (0, 200, 0, 200)
   \<and> snap_edges (tiles (snapToNeighbors 1 corner_example) ! 1) = Some (200, 225, 175, 200)
   \<and> (175::real) \<noteq> 200
   \<and> snap_edges (tiles gap_example ! 1) = Some (- 20, 5, 0, 25)
   \<and> snap_edges (tiles gap_example ! 0) =
       Some (7656119366529843 / 2 ^ 51, 7156501282868429 / 2 ^ 45, 0, 200)
   \<and> at_left (- 20, 5, 0, 25) (7656119366529843 / 2 ^ 51, 7156501282868429 / 2 ^ 45, 0, 200)
   \<and> snap_edges (tiles (snapToNeighbors 1 gap_example) ! 1) =
       Some (- 3039929748475085 / 2 ^ 47, 478507460408115 / 2 ^ 47, 0, 25)
   \<and> (478507460408115 / 2 ^ 47 :: real) \<noteq> 7656119366529843 / 2 ^ 51"
proof -
  note ev = near_def snapDist_def dbl_def ulp_def ulp_down.simps ulp_up.simps rne_def
  note tl = desktop_def new_tile_def updateDimensions_def snap_edges_def
  have a: "snap_edges (tiles corner_example ! 1) = Some (188, 213, 188, 213)"
    by (simp add: corner_example_def tl ev)
  have b: "snap_edges (tiles corner_example ! 0) = Some (0, 200, 0, 200)"
    by (simp add: corner_example_def tl ev)
  have c: "at_bottom (188, 213, 188, 213) (0, 200, 0, 200)"
    by (simp add: ev)
  have d: "snap_edges (tiles (snapToNeighbors 1 corner_example) ! 1) = Some (200, 225, 175, 200)"
    by (simp add: corner_example_def tl snapToNeighbors_def snap_pair_def orelse_def ev)
  have g: "dbl (34 / 10) = 7656119366529843 / 2 ^ 51"
    by (simp add: ev)
  have e: "snap_edges (tiles gap_example ! 1) = Some (- 20, 5, 0, 25)"
    by (simp add: gap_example_def tl ev)
  have f: "snap_edges (tiles gap_example ! 0) =
       Some (7656119366529843 / 2 ^ 51, 7156501282868429 / 2 ^ 45, 0, 200)"
    unfolding gap_example_def g by (simp add: tl ev)
  have h: "at_left (- 20, 5, 0, 25) (7656119366529843 / 2 ^ 51, 7156501282868429 / 2 ^ 45, 0, 200)"
    by (simp add: ev)
  have i: "snap_edges (tiles (snapToNeighbors 1 gap_example) ! 1) =
       Some (- 3039929748475085 / 2 ^ 47, 478507460408115 / 2 ^ 47, 0, 25)"
    unfolding gap_example_def g
    by (simp add: tl snapToNeighbors_def snap_pair_def orelse_def ev)
  show ?thesis using a b c d e f h i by simp
qed

section \<open>C8: the animation stepper\<close>

lemma dbl_err: "\<bar>dbl x - x\<bar> \<le> \<bar>x\<bar> / 1000000000000000 + 1 / 100000000000000000000"
proof -
  have "(1::real) / 10 ^ 300 \<le> 1 / 10 ^ 20" by (intro divide_left_mono) simp_all
  with dbl_error [of x] show ?thesis by simp
qed

lemma far_lower: assumes "\<bar>dbl x\<bar> > 1 / 2" shows "\<bar>x\<bar> > 49 / 100"
  using dbl_err [of x] assms by argo

lemma near_upper: assumes "\<bar>x\<bar> \<le> 49 / 100" shows "\<not> \<bar>dbl x\<bar> > 1 / 2"
  using dbl_err [of x] assms by argo

lemma ease_near: "\<bar>ease - 1 / 10\<bar> \<le> 2 / 10000000000000000"
  using dbl_err [of "1 / 10"] by (simp add: ease_def)

lemma ease_step:
  assumes g: "\<bar>g\<bar> \<le> 1000000000" and D: "\<bar>g - p\<bar> \<le> 1000000000"
    and far: "\<bar>dbl (p - g)\<bar> > 1 / 2"
  shows "\<bar>(g - dbl (p + dbl (dbl (g - p) * ease))) - 9 / 10 * (g - p)\<bar> \<le> \<bar>g - p\<bar> / 100"
proof -
  define d where "d = g - p"
  define d1 where "d1 = dbl d"
  define a0 where "a0 = d1 * ease"
  define a where "a = dbl a0"
  define s where "s = p + a"
  define p' where "p' = dbl s"
  have "\<bar>p - g\<bar> > 49 / 100" using far by (rule far_lower)
  then have dlow: "\<bar>d\<bar> > 49 / 100" unfolding d_def by argo
  have dhigh: "\<bar>d\<bar> \<le> 1000000000" using D by (simp add: d_def)
  have e1: "\<bar>d1 - d\<bar> \<le> \<bar>d\<bar> / 1000000000000000 + 1 / 100000000000000000000"
    unfolding d1_def by (rule dbl_err)
  have e1': "\<bar>d1 - d\<bar> \<le> \<bar>d\<bar> / 100000000000000" using e1 dlow by argo
  have c: "\<bar>ease - 1 / 10\<bar> \<le> 2 / 10000000000000000" by (rule ease_near)
  then have c2: "\<bar>ease\<bar> \<le> 1" by argo
  have "a0 - d / 10 = (d1 - d) * ease + d * (ease - 1 / 10)"
    by (simp add: a0_def algebra_simps)
  then have "\<bar>a0 - d / 10\<bar> \<le> \<bar>(d1 - d) * ease\<bar> + \<bar>d * (ease - 1 / 10)\<bar>"
    by argo
  also have "\<dots> = \<bar>d1 - d\<bar> * \<bar>ease\<bar> + \<bar>d\<bar> * \<bar>ease - 1 / 10\<bar>"
    by (simp only: abs_mult)
  also have "\<dots> \<le> \<bar>d\<bar> / 100000000000000 * 1 + \<bar>d\<bar> * (2 / 10000000000000000)"
    by (intro add_mono mult_mono e1' c2 c) simp_all
  finally have e2: "\<bar>a0 - d / 10\<bar> \<le> \<bar>d\<bar> / 10000000000000" by argo
  have a0b: "\<bar>a0\<bar> \<le> \<bar>d\<bar>" using e2 by argo
  have "\<bar>a - a0\<bar> \<le> \<bar>a0\<bar> / 1000000000000000 + 1 / 100000000000000000000"
    unfolding a_def by (rule dbl_err)
  then have e3: "\<bar>a - a0\<bar> \<le> \<bar>d\<bar> / 100000000000000" using a0b dlow by argo
  have e4: "\<bar>a - d / 10\<bar> \<le> \<bar>d\<bar> / 1000000000000" using e2 e3 by argo
  have ab: "\<bar>a\<bar> \<le> \<bar>d\<bar>" using e4 by argo
  have "p = g - d" by (simp add: d_def)
  then have pb: "\<bar>p\<bar> \<le> 2000000000" using g dhigh by argo
  have sb: "\<bar>s\<bar> \<le> 3000000000" unfolding s_def using pb ab dhigh by argo
  have "\<bar>p' - s\<bar> \<le> \<bar>s\<bar> / 1000000000000000 + 1 / 100000000000000000000"
    unfolding p'_def by (rule dbl_err)
  then have e5: "\<bar>p' - s\<bar> \<le> \<bar>d\<bar> / 1000" using sb dlow by argo
  have "g - p' - 9 / 10 * d = - (a - d / 10) - (p' - s)"
    unfolding s_def d_def by argo
  then have "\<bar>g - p' - 9 / 10 * d\<bar> \<le> \<bar>d\<bar> / 100" using e4 e5 by argo
  then show ?thesis
    by (simp add: p'_def s_def a_def a0_def d1_def d_def)
qed

lemma move_axis_moved:
  "snd (move_axis pos target) \<longleftrightarrow>
     (\<exists>p g. pos = Some p \<and> target = Some g \<and> \<bar>dbl (p - g)\<bar> > 1 / 2)"
  by (auto simp: move_axis_def split: option.splits)

lemma move_axis_rest: "\<not> snd (move_axis pos target) \<Longrightarrow> fst (move_axis pos target) = target"
  by (simp add: move_axis_def split: option.splits if_splits)

lemma move_axis_small:
  assumes "axis_dist pos target \<le> 49 / 100"
  shows "\<not> snd (move_axis pos target)"
proof
  assume "snd (move_axis pos target)"
  then obtain p g where pg: "pos = Some p" "target = Some g" "\<bar>dbl (p - g)\<bar> > 1 / 2"
    unfolding move_axis_moved by blast
  from assms have "\<bar>p - g\<bar> \<le> 49 / 100" by (simp add: axis_dist_def pg)
  from near_upper [OF this] pg(3) show False by simp
qed

lemma move_axis_step:
  assumes r: "axis_range target" and D: "axis_dist pos target \<le> 10 ^ 9"
    and m: "snd (move_axis pos target)"
  shows "\<exists>p g q. pos = Some p \<and> target = Some g \<and> fst (move_axis pos target) = Some q
          \<and> \<bar>(g - q) - 9 / 10 * (g - p)\<bar> \<le> \<bar>g - p\<bar> / 100 \<and> \<bar>g - p\<bar> > 49 / 100"
proof -
  from m obtain p g where pg: "pos = Some p" "target = Some g" "\<bar>dbl (p - g)\<bar> > 1 / 2"
    unfolding move_axis_moved by blast
  have g: "\<bar>g\<bar> \<le> 1000000000" using r by (simp add: axis_range_def pg)
  have d: "\<bar>g - p\<bar> \<le> 1000000000" using D by (simp add: axis_dist_def pg abs_minus_commute)
  have low: "\<bar>g - p\<bar> > 49 / 100" using far_lower [OF pg(3)] by (simp add: abs_minus_commute)
  have f: "fst (move_axis pos target) = Some (dbl (p + dbl (dbl (g - p) * ease)))"
    using pg by (simp add: move_axis_def)
  from ease_step [OF g d pg(3)] pg f low show ?thesis by blast
qed

lemma move_axis_contracts:
  assumes r: "axis_range target" and D: "axis_dist pos target \<le> 10 ^ 9"
  shows "axis_dist (fst (move_axis pos target)) target \<le> 91 / 100 * axis_dist pos target"
proof (cases "snd (move_axis pos target)")
  case True
  from move_axis_step [OF r D True] obtain p g q where
    pg: "pos = Some p" "target = Some g" "fst (move_axis pos target) = Some q"
    and st: "\<bar>(g - q) - 9 / 10 * (g - p)\<bar> \<le> \<bar>g - p\<bar> / 100" by blast
  have f: "fst (move_axis (Some p) (Some g)) = Some q" using pg by simp
  have "\<bar>q - g\<bar> \<le> 91 / 100 * \<bar>p - g\<bar>" using st by argo
  then show ?thesis by (simp add: axis_dist_def pg(1,2) f)
next
  case False
  have "0 \<le> axis_dist pos target" by (simp add: axis_dist_def split: option.splits)
  then show ?thesis
    using move_axis_rest [OF False] by (simp add: axis_dist_def split: option.splits)
qed

lemma move_axis_away:
  assumes r: "axis_range target" and D: "axis_dist pos target \<le> 10 ^ 9"
    and m: "snd (move_axis pos target)"
  shows "fst (move_axis pos target) \<noteq> target"
proof -
  from move_axis_step [OF r D m] obtain p g q where
    pg: "pos = Some p" "target = Some g" "fst (move_axis pos target) = Some q"
    and st: "\<bar>(g - q) - 9 / 10 * (g - p)\<bar> \<le> \<bar>g - p\<bar> / 100" "\<bar>g - p\<bar> > 49 / 100" by blast
  have f: "fst (move_axis (Some p) (Some g)) = Some q" using pg by simp
  have "q \<noteq> g" using st by argo
  then show ?thesis by (simp add: pg(1,2) f)
qed

lemma axis_dist_nonneg: "0 \<le> axis_dist pos target"
  by (simp add: axis_dist_def split: option.splits)

lemma tile_dist_nonneg: "0 \<le> tile_dist t"
  by (simp add: tile_dist_def axis_dist_nonneg le_max_iff_disj)

lemma step_tile_fst:
  "fst (step_tile t) =
     t\<lparr>tile_x := fst (move_axis (tile_x t) (targetX t)),
       tile_y := fst (move_axis (tile_y t) (targetY t))\<rparr>"
  by (simp add: step_tile_def split: prod.splits)

lemma step_tile_snd:
  "snd (step_tile t) \<longleftrightarrow>
     snd (move_axis (tile_x t) (targetX t)) \<or> snd (move_axis (tile_y t) (targetY t))"
  by (simp add: step_tile_def split: prod.splits)

lemma step_tile_small: "tile_dist t \<le> 49 / 100 \<Longrightarrow> \<not> snd (step_tile t)"
  by (simp add: step_tile_snd tile_dist_def move_axis_small)

lemma step_tile_settled: "\<not> snd (step_tile t) \<Longrightarrow> at_target (fst (step_tile t))"
  by (simp add: step_tile_fst step_tile_snd at_target_def move_axis_rest)

lemma step_tile_unsettled:
  assumes "tile_range t" "tile_dist t \<le> 10 ^ 9" "snd (step_tile t)"
  shows "\<not> at_target (fst (step_tile t))"
proof -
  have x: "axis_range (targetX t)" "axis_dist (tile_x t) (targetX t) \<le> 10 ^ 9"
    and y: "axis_range (targetY t)" "axis_dist (tile_y t) (targetY t) \<le> 10 ^ 9"
    using assms(1,2) by (simp_all add: tile_range_def tile_dist_def)
  from assms(3) show ?thesis
    using move_axis_away [OF x] move_axis_away [OF y]
    by (auto simp: step_tile_fst step_tile_snd at_target_def)
qed

lemma step_tile_contracts:
  assumes "tile_range t" "tile_dist t \<le> 10 ^ 9"
  shows "tile_dist (fst (step_tile t)) \<le> 91 / 100 * tile_dist t"
proof -
  have x: "axis_range (targetX t)" "axis_dist (tile_x t) (targetX t) \<le> 10 ^ 9"
    and y: "axis_range (targetY t)" "axis_dist (tile_y t) (targetY t) \<le> 10 ^ 9"
    using assms by (simp_all add: tile_range_def tile_dist_def)
  show ?thesis
    using move_axis_contracts [OF x] move_axis_contracts [OF y]
    by (simp add: step_tile_fst tile_dist_def max_def)
qed

lemma step_tile_range: "tile_range (fst (step_tile t)) = tile_range t"
  by (simp add: step_tile_fst tile_range_def)

lemma validate_silent: "fst (validateArrangement True s) = s"
  by (simp add: validateArrangement_def Let_def)

lemma render_active:
  "isAnimating s \<Longrightarrow> \<exists>t \<in> set (tiles s). snd (step_tile t) \<Longrightarrow>
     render s = (s\<lparr>tiles := map (\<lambda>t. fst (step_tile t)) (tiles s)\<rparr>, StillActive)"
  by (simp add: render_def step_tiles_def list_ex_iff)

lemma render_settled:
  "isAnimating s \<Longrightarrow> \<forall>t \<in> set (tiles s). \<not> snd (step_tile t) \<Longrightarrow>
     render s = (s\<lparr>tiles := map (\<lambda>t. fst (step_tile t)) (tiles s), isAnimating := False\<rparr>, Settled)"
  by (simp add: render_def step_tiles_def list_ex_iff validate_silent)

lemma render_idle: "\<not> isAnimating s \<Longrightarrow> render s = (s, Idle)"
  by (simp add: render_def)

lemma run_frames_idle: "\<not> isAnimating s \<Longrightarrow> run_frames k s = (s, replicate k Idle)"
  by (induction k) (simp_all add: render_idle)

lemma ease_bound:
  assumes "0 \<le> D"
  shows "(91 / 100) ^ nat \<lceil>21 * D\<rceil> * D \<le> (49 / 100 :: real)"
proof (cases "D \<le> 49 / 100")
  case True
  have "(91 / 100 :: real) ^ nat \<lceil>21 * D\<rceil> \<le> 1" by (simp add: power_le_one)
  then have "(91 / 100) ^ nat \<lceil>21 * D\<rceil> * D \<le> 1 * D"
    using assms by (intro mult_right_mono) simp_all
  with True show ?thesis by simp
next
  case False
  then have D: "0 < D" by simp
  let ?n = "nat \<lceil>21 * D\<rceil>"
  have n: "21 * D \<le> real ?n" by linarith
  have "1 + real ?n * (9 / 91) \<le> (1 + 9 / 91 :: real) ^ ?n"
    by (rule Bernoulli_inequality) simp
  then have b: "100 / 49 * D \<le> (100 / 91 :: real) ^ ?n" using n by simp
  have i: "(100 / 91 :: real) ^ ?n * (91 / 100) ^ ?n = 1"
    by (simp add: power_mult_distrib [symmetric])
  have "100 / 49 * D * (91 / 100) ^ ?n \<le> (100 / 91 :: real) ^ ?n * (91 / 100) ^ ?n"
    by (intro mult_right_mono b) simp
  then have "100 / 49 * D * (91 / 100) ^ ?n \<le> 1" unfolding i .
  then show ?thesis by (simp add: ac_simps)
qed

lemma settle_now:
  assumes "isAnimating s" "\<forall>t \<in> set (tiles s). \<not> snd (step_tile t)"
  shows "run_frames (Suc k) s =
     (s\<lparr>tiles := map (\<lambda>t. fst (step_tile t)) (tiles s), isAnimating := False\<rparr>,
      Settled # replicate k Idle)"
  by (simp add: render_settled [OF assms] run_frames_idle)

lemma step_on:
  assumes "isAnimating s" "\<exists>t \<in> set (tiles s). snd (step_tile t)"
  shows "run_frames (Suc k) s =
     (fst (run_frames k (s\<lparr>tiles := map (\<lambda>t. fst (step_tile t)) (tiles s)\<rparr>)),
      StillActive # snd (run_frames k (s\<lparr>tiles := map (\<lambda>t. fst (step_tile t)) (tiles s)\<rparr>)))"
  by (simp add: render_active [OF assms] split: prod.splits)

lemma settle_within:
  "isAnimating s \<Longrightarrow>
   (\<forall>t \<in> set (tiles s). tile_range t \<and> tile_dist t \<le> 10 ^ 9
        \<and> (91 / 100) ^ N * tile_dist t \<le> 49 / 100) \<Longrightarrow>
     \<exists>n \<le> N.
        (\<forall>k. snd (run_frames (n + 1 + k) s) = replicate n StillActive @ Settled # replicate k Idle
             \<and> fst (run_frames (n + 1 + k) s) = fst (run_frames (n + 1) s))
        \<and> (\<forall>t \<in> set (tiles (fst (run_frames (n + 1) s))). at_target t)
        \<and> \<not> isAnimating (fst (run_frames (n + 1) s))
        \<and> (\<forall>m. 1 \<le> m \<and> m \<le> n \<longrightarrow> (\<exists>t \<in> set (tiles (fst (run_frames m s))). \<not> at_target t))"
proof (induction N arbitrary: s)
  case 0
  then have rest: "\<forall>t \<in> set (tiles s). \<not> snd (step_tile t)"
    by (simp add: step_tile_small)
  have "(\<forall>k. snd (run_frames (0 + 1 + k) s) = replicate 0 StillActive @ Settled # replicate k Idle
             \<and> fst (run_frames (0 + 1 + k) s) = fst (run_frames (0 + 1) s))
        \<and> (\<forall>t \<in> set (tiles (fst (run_frames (0 + 1) s))). at_target t)
        \<and> \<not> isAnimating (fst (run_frames (0 + 1) s))
        \<and> (\<forall>m. 1 \<le> m \<and> m \<le> 0 \<longrightarrow> (\<exists>t \<in> set (tiles (fst (run_frames m s))). \<not> at_target t))"
    using rest by (simp add: settle_now [OF "0.prems"(1) rest] step_tile_settled
        del: run_frames.simps)
  then show ?case by blast
next
  case (Suc N)
  show ?case
  proof (cases "\<forall>t \<in> set (tiles s). \<not> snd (step_tile t)")
    case rest: True
    have "(\<forall>k. snd (run_frames (0 + 1 + k) s) = replicate 0 StillActive @ Settled # replicate k Idle
             \<and> fst (run_frames (0 + 1 + k) s) = fst (run_frames (0 + 1) s))
        \<and> (\<forall>t \<in> set (tiles (fst (run_frames (0 + 1) s))). at_target t)
        \<and> \<not> isAnimating (fst (run_frames (0 + 1) s))
        \<and> (\<forall>m. 1 \<le> m \<and> m \<le> 0 \<longrightarrow> (\<exists>t \<in> set (tiles (fst (run_frames m s))). \<not> at_target t))"
      using rest by (simp add: settle_now [OF Suc.prems(1) rest] step_tile_settled
          del: run_frames.simps)
    then show ?thesis by blast
  next
    case False
    then have big: "\<exists>t \<in> set (tiles s). snd (step_tile t)" by simp
    let ?s1 = "s\<lparr>tiles := map (\<lambda>t. fst (step_tile t)) (tiles s)\<rparr>"
    have anim: "isAnimating ?s1" using Suc.prems(1) by simp
    have closer: "\<forall>t \<in> set (tiles ?s1). tile_range t \<and> tile_dist t \<le> 10 ^ 9
        \<and> (91 / 100) ^ N * tile_dist t \<le> 49 / 100"
    proof
      fix t' assume "t' \<in> set (tiles ?s1)"
      then obtain t where t: "t \<in> set (tiles s)" "t' = fst (step_tile t)" by auto
      from Suc.prems(2) t(1) have r: "tile_range t" and d: "tile_dist t \<le> 10 ^ 9"
        and c: "(91 / 100) ^ Suc N * tile_dist t \<le> 49 / 100" by blast+
      note ct = step_tile_contracts [OF r d]
      have "tile_dist t' \<le> 1 * tile_dist t"
        unfolding t(2) using ct tile_dist_nonneg [of t] by simp
      then have d': "tile_dist t' \<le> 10 ^ 9" using d by simp
      have "(91 / 100) ^ N * tile_dist t' \<le> (91 / 100) ^ N * (91 / 100 * tile_dist t)"
        unfolding t(2) by (intro mult_left_mono ct) simp
      also have "\<dots> = (91 / 100) ^ Suc N * tile_dist t" by simp
      also have "\<dots> \<le> 49 / 100" by (rule c)
      finally have "(91 / 100) ^ N * tile_dist t' \<le> 49 / 100" .
      with d' r show "tile_range t' \<and> tile_dist t' \<le> 10 ^ 9
        \<and> (91 / 100) ^ N * tile_dist t' \<le> 49 / 100"
        unfolding t(2) step_tile_range by blast
    qed
    from Suc.IH [OF anim closer] obtain n where n: "n \<le> N"
      and sig: "\<And>k. snd (run_frames (n + 1 + k) ?s1) =
                  replicate n StillActive @ Settled # replicate k Idle"
      and stay: "\<And>k. fst (run_frames (n + 1 + k) ?s1) = fst (run_frames (n + 1) ?s1)"
      and fin: "\<forall>t \<in> set (tiles (fst (run_frames (n + 1) ?s1))). at_target t"
      and off: "\<not> isAnimating (fst (run_frames (n + 1) ?s1))"
      and before: "\<And>m. 1 \<le> m \<Longrightarrow> m \<le> n \<Longrightarrow>
                     \<exists>t \<in> set (tiles (fst (run_frames m ?s1))). \<not> at_target t"
      by blast
    note so = step_on [OF Suc.prems(1) big]
    have moved: "\<exists>t \<in> set (tiles ?s1). \<not> at_target t"
    proof -
      from big obtain t where t: "t \<in> set (tiles s)" "snd (step_tile t)" by blast
      from Suc.prems(2) t(1) have "tile_range t" "tile_dist t \<le> 10 ^ 9" by blast+
      then have "\<not> at_target (fst (step_tile t))" using t(2) by (rule step_tile_unsettled)
      with t(1) show ?thesis by auto
    qed
    have early: "\<exists>t \<in> set (tiles (fst (run_frames m s))). \<not> at_target t"
      if m: "1 \<le> m" "m \<le> Suc n" for m
    proof (cases m)
      case 0
      with m show ?thesis by simp
    next
      case (Suc m1)
      show ?thesis
      proof (cases m1)
        case 0
        with Suc moved show ?thesis by (simp add: so del: run_frames.simps(2))
      next
        case (Suc m2)
        with \<open>m = Suc m1\<close> m have "1 \<le> m1" "m1 \<le> n" by simp_all
        from before [OF this] \<open>m = Suc m1\<close> show ?thesis
          by (simp add: so del: run_frames.simps)
      qed
    qed
    have "(\<forall>k. snd (run_frames (Suc n + 1 + k) s) =
                replicate (Suc n) StillActive @ Settled # replicate k Idle
             \<and> fst (run_frames (Suc n + 1 + k) s) = fst (run_frames (Suc n + 1) s))
        \<and> (\<forall>t \<in> set (tiles (fst (run_frames (Suc n + 1) s))). at_target t)
        \<and> \<not> isAnimating (fst (run_frames (Suc n + 1) s))
        \<and> (\<forall>m. 1 \<le> m \<and> m \<le> Suc n \<longrightarrow> (\<exists>t \<in> set (tiles (fst (run_frames m s))). \<not> at_target t))"
    proof (intro conjI allI impI)
      fix k
      have "run_frames (Suc n + 1 + k) s = run_frames (Suc (n + 1 + k)) s"
        by (simp del: run_frames.simps)
      then show "snd (run_frames (Suc n + 1 + k) s) =
                replicate (Suc n) StillActive @ Settled # replicate k Idle"
        using sig [of k] by (simp add: so del: run_frames.simps)
      have a: "fst (run_frames (Suc (n + 1 + k)) s) = fst (run_frames (n + 1 + k) ?s1)"
        by (simp only: so fst_conv)
      have b: "fst (run_frames (Suc (n + 1)) s) = fst (run_frames (n + 1) ?s1)"
        by (simp only: so fst_conv)
      show "fst (run_frames (Suc n + 1 + k) s) = fst (run_frames (Suc n + 1) s)"
        using a b stay [of k] by (simp del: run_frames.simps)
    next
      have b: "fst (run_frames (Suc (n + 1)) s) = fst (run_frames (n + 1) ?s1)"
        by (simp only: so fst_conv)
      show "\<forall>t \<in> set (tiles (fst (run_frames (Suc n + 1) s))). at_target t"
        using fin b by (simp del: run_frames.simps)
      show "\<not> isAnimating (fst (run_frames (Suc n + 1) s))"
        using off b by (simp del: run_frames.simps)
    next
      fix m assume "1 \<le> m \<and> m \<le> Suc n"
      then show "\<exists>t \<in> set (tiles (fst (run_frames m s))). \<not> at_target t"
        using early by blast
    qed
    moreover have "Suc n \<le> Suc N" using n by simp
    ultimately show ?thesis by blast
  qed
qed

lemma move_axis_defined:
  "fst (move_axis (Some p) (Some g)) =
     Some (if \<bar>dbl (p - g)\<bar> > 1 / 2 then dbl (p + dbl (dbl (g - p) * dbl (1 / 10))) else g)"
  by (simp add: move_axis_def ease_def)

lemma render_tiles:
  "isAnimating s \<Longrightarrow> tiles (fst (render s)) = map (\<lambda>t. fst (step_tile t)) (tiles s)"
  by (simp add: render_def step_tiles_def validate_silent split: prod.splits)

lemma big_example_fixed: "render big_example = (big_example, StillActive)"
proof -
  have e: "ease = 3602879701896397 / 2 ^ 55"
    by (simp add: ease_def dbl_def ulp_def ulp_down.simps ulp_up.simps rne_def)
  have x: "move_axis (Some 9007199254740992) (Some 9007199254740996)
      = (Some 9007199254740992, True)"
    unfolding move_axis_def e
    by (simp add: dbl_def ulp_def ulp_down.simps ulp_up.simps rne_def)
  have y: "move_axis (Some 0) (Some 0) = (Some 0, False)"
    by (simp add: move_axis_def dbl_zero)
  show ?thesis
    by (simp add: render_def step_tiles_def step_tile_def big_example_def new_tile_def
          updateDimensions_def desktop_def x y)
qed

lemma big_example_never_settles:
  "run_frames k big_example = (big_example, replicate k StillActive)"
  by (induction k) (simp_all add: big_example_fixed)

lemma moving_example_first_step:
  "tile_x (fst (step_tile (hd (tiles moving_example)))) = Some (1351079888211149 / 2 ^ 52)"
proof -
  have e: "ease = 3602879701896397 / 2 ^ 55"
    by (simp add: ease_def dbl_def ulp_def ulp_down.simps ulp_up.simps rne_def)
  have x: "move_axis (Some 0) (Some 3) = (Some (1351079888211149 / 2 ^ 52), True)"
    unfolding move_axis_def e
    by (simp add: dbl_def ulp_def ulp_down.simps ulp_up.simps rne_def)
  show ?thesis
    by (simp add: step_tile_fst moving_example_def new_tile_def updateDimensions_def x)
qed

text \<open>
Claim C8, as the code has it. While animating, a call of \<^verbatim>\<open>render\<close> steps every
  tile, each axis on its own: an axis whose computed distance from its target is more
  than 0.5 pixels moves by the rounded product of the remaining distance and the double
  nearest to 0.1, any other axis is set exactly to the target; targets are not changed.
  While every target is at most \<open>10\<^sup>9\<close> in magnitude and every remaining distance at
  most \<open>D \<le> 10\<^sup>9\<close>, such a move differs from a tenth of the remaining distance by at
  most a hundredth of it, so that the remaining distance shrinks to at most 91% of
  itself, and: after some \<open>n\<close> frames that ask for another frame, with \<open>n\<close> at most
  \<open>\<lceil>21 D\<rceil>\<close>, frame \<open>n + 1\<close> signals "settled", every tile is then at its target and
  the animation flag is cleared; all later frames are idle and change nothing, so
  "settled" is signalled once. After each of the \<open>n\<close> frames before it, some tile is not
  yet at its target.
\<close>

theorem animation_settles:
  assumes "isAnimating s" and "\<forall>t \<in> set (tiles s). tile_range t \<and> tile_dist t \<le> D"
    and "D \<le> 10 ^ 9"
  shows "tiles (fst (render s)) = map (\<lambda>t. fst (step_tile t)) (tiles s)
   \<and> (\<forall>t \<in> set (tiles s).
         targetX (fst (step_tile t)) = targetX t \<and> targetY (fst (step_tile t)) = targetY t
         \<and> (\<forall>p g. tile_x t = Some p \<and> targetX t = Some g \<longrightarrow>
               tile_x (fst (step_tile t)) =
                 Some (if \<bar>dbl (p - g)\<bar> > 1 / 2
                       then dbl (p + dbl (dbl (g - p) * dbl (1 / 10))) else g)
               \<and> (\<bar>dbl (p - g)\<bar> > 1 / 2 \<longrightarrow>
                    \<bar>dbl (p + dbl (dbl (g - p) * dbl (1 / 10))) - p - (g - p) / 10\<bar>
                      \<le> \<bar>g - p\<bar> / 100))
         \<and> (\<forall>p g. tile_y t = Some p \<and> targetY t = Some g \<longrightarrow>
               tile_y (fst (step_tile t)) =
                 Some (if \<bar>dbl (p - g)\<bar> > 1 / 2
                       then dbl (p + dbl (dbl (g - p) * dbl (1 / 10))) else g)
               \<and> (\<bar>dbl (p - g)\<bar> > 1 / 2 \<longrightarrow>
                    \<bar>dbl (p + dbl (dbl (g - p) * dbl (1 / 10))) - p - (g - p) / 10\<bar>
                      \<le> \<bar>g - p\<bar> / 100))
         \<and> tile_dist (fst (step_tile t)) \<le> 91 / 100 * tile_dist t)
   \<and> (\<exists>n \<le> nat \<lceil>21 * D\<rceil>.
        (\<forall>k. snd (run_frames (n + 1 + k) s) = replicate n StillActive @ Settled # replicate k Idle
             \<and> fst (run_frames (n + 1 + k) s) = fst (run_frames (n + 1) s))
        \<and> (\<forall>t \<in> set (tiles (fst (run_frames (n + 1) s))). at_target t)
        \<and> \<not> isAnimating (fst (run_frames (n + 1) s))
        \<and> (\<forall>m. 1 \<le> m \<and> m \<le> n \<longrightarrow>
              (\<exists>t \<in> set (tiles (fst (run_frames m s))). \<not> at_target t)))"
proof (intro conjI)
  show "tiles (fst (render s)) = map (\<lambda>t. fst (step_tile t)) (tiles s)"
    using assms(1) by (rule render_tiles)
next
  have tenth: "\<bar>dbl (p + dbl (dbl (g - p) * dbl (1 / 10))) - p - (g - p) / 10\<bar> \<le> \<bar>g - p\<bar> / 100"
    if "axis_range (Some g)" "axis_dist (Some p) (Some g) \<le> 10 ^ 9" "\<bar>dbl (p - g)\<bar> > 1 / 2"
    for p g
  proof -
    have g: "\<bar>g\<bar> \<le> 1000000000" using that(1) by (simp add: axis_range_def)
    have d: "\<bar>g - p\<bar> \<le> 1000000000"
      using that(2) by (simp add: axis_dist_def abs_minus_commute)
    from ease_step [OF g d that(3)] show ?thesis unfolding ease_def by argo
  qed
  show "\<forall>t \<in> set (tiles s).
         targetX (fst (step_tile t)) = targetX t \<and> targetY (fst (step_tile t)) = targetY t
         \<and> (\<forall>p g. tile_x t = Some p \<and> targetX t = Some g \<longrightarrow>
               tile_x (fst (step_tile t)) =
                 Some (if \<bar>dbl (p - g)\<bar> > 1 / 2
                       then dbl (p + dbl (dbl (g - p) * dbl (1 / 10))) else g)
               \<and> (\<bar>dbl (p - g)\<bar> > 1 / 2 \<longrightarrow>
                    \<bar>dbl (p + dbl (dbl (g - p) * dbl (1 / 10))) - p - (g - p) / 10\<bar>
                      \<le> \<bar>g - p\<bar> / 100))
         \<and> (\<forall>p g. tile_y t = Some p \<and> targetY t = Some g \<longrightarrow>
               tile_y (fst (step_tile t)) =
                 Some (if \<bar>dbl (p - g)\<bar> > 1 / 2
                       then dbl (p + dbl (dbl (g - p) * dbl (1 / 10))) else g)
               \<and> (\<bar>dbl (p - g)\<bar> > 1 / 2 \<longrightarrow>
                    \<bar>dbl (p + dbl (dbl (g - p) * dbl (1 / 10))) - p - (g - p) / 10\<bar>
                      \<le> \<bar>g - p\<bar> / 100))
         \<and> tile_dist (fst (step_tile t)) \<le> 91 / 100 * tile_dist t"
  proof
    fix t assume t: "t \<in> set (tiles s)"
    with assms(2,3) have r: "tile_range t" and d: "tile_dist t \<le> 10 ^ 9" by fastforce+
    have x: "axis_range (targetX t)" "axis_dist (tile_x t) (targetX t) \<le> 10 ^ 9"
      and y: "axis_range (targetY t)" "axis_dist (tile_y t) (targetY t) \<le> 10 ^ 9"
      using r d by (simp_all add: tile_range_def tile_dist_def)
    have tx: "\<forall>p g. tile_x t = Some p \<and> targetX t = Some g \<longrightarrow>
               tile_x (fst (step_tile t)) =
                 Some (if \<bar>dbl (p - g)\<bar> > 1 / 2
                       then dbl (p + dbl (dbl (g - p) * dbl (1 / 10))) else g)
               \<and> (\<bar>dbl (p - g)\<bar> > 1 / 2 \<longrightarrow>
                    \<bar>dbl (p + dbl (dbl (g - p) * dbl (1 / 10))) - p - (g - p) / 10\<bar>
                      \<le> \<bar>g - p\<bar> / 100)"
    proof (intro allI impI conjI)
      fix p g assume "tile_x t = Some p \<and> targetX t = Some g"
      then have pg: "tile_x t = Some p" "targetX t = Some g" by blast+
      show "tile_x (fst (step_tile t)) =
                 Some (if \<bar>dbl (p - g)\<bar> > 1 / 2
                       then dbl (p + dbl (dbl (g - p) * dbl (1 / 10))) else g)"
        by (simp add: step_tile_fst pg move_axis_defined)
      assume "\<bar>dbl (p - g)\<bar> > 1 / 2"
      with x show "\<bar>dbl (p + dbl (dbl (g - p) * dbl (1 / 10))) - p - (g - p) / 10\<bar>
                      \<le> \<bar>g - p\<bar> / 100"
        unfolding pg by (rule tenth)
    qed
    have ty: "\<forall>p g. tile_y t = Some p \<and> targetY t = Some g \<longrightarrow>
               tile_y (fst (step_tile t)) =
                 Some (if \<bar>dbl (p - g)\<bar> > 1 / 2
                       then dbl (p + dbl (dbl (g - p) * dbl (1 / 10))) else g)
               \<and> (\<bar>dbl (p - g)\<bar> > 1 / 2 \<longrightarrow>
                    \<bar>dbl (p + dbl (dbl (g - p) * dbl (1 / 10))) - p - (g - p) / 10\<bar>
                      \<le> \<bar>g - p\<bar> / 100)"
    proof (intro allI impI conjI)
      fix p g assume "tile_y t = Some p \<and> targetY t = Some g"
      then have pg: "tile_y t = Some p" "targetY t = Some g" by blast+
      show "tile_y (fst (step_tile t)) =
                 Some (if \<bar>dbl (p - g)\<bar> > 1 / 2
                       then dbl (p + dbl (dbl (g - p) * dbl (1 / 10))) else g)"
        by (simp add: step_tile_fst pg move_axis_defined)
      assume "\<bar>dbl (p - g)\<bar> > 1 / 2"
      with y show "\<bar>dbl (p + dbl (dbl (g - p) * dbl (1 / 10))) - p - (g - p) / 10\<bar>
                      \<le> \<bar>g - p\<bar> / 100"
        unfolding pg by (rule tenth)
    qed
    have tg: "targetX (fst (step_tile t)) = targetX t" "targetY (fst (step_tile t)) = targetY t"
      by (simp_all add: step_tile_fst)
    note ct = step_tile_contracts [OF r d]
    from tg tx ty ct show "targetX (fst (step_tile t)) = targetX t
         \<and> targetY (fst (step_tile t)) = targetY t
         \<and> (\<forall>p g. tile_x t = Some p \<and> targetX t = Some g \<longrightarrow>
               tile_x (fst (step_tile t)) =
                 Some (if \<bar>dbl (p - g)\<bar> > 1 / 2
                       then dbl (p + dbl (dbl (g - p) * dbl (1 / 10))) else g)
               \<and> (\<bar>dbl (p - g)\<bar> > 1 / 2 \<longrightarrow>
                    \<bar>dbl (p + dbl (dbl (g - p) * dbl (1 / 10))) - p - (g - p) / 10\<bar>
                      \<le> \<bar>g - p\<bar> / 100))
         \<and> (\<forall>p g. tile_y t = Some p \<and> targetY t = Some g \<longrightarrow>
               tile_y (fst (step_tile t)) =
                 Some (if \<bar>dbl (p - g)\<bar> > 1 / 2
                       then dbl (p + dbl (dbl (g - p) * dbl (1 / 10))) else g)
               \<and> (\<bar>dbl (p - g)\<bar> > 1 / 2 \<longrightarrow>
                    \<bar>dbl (p + dbl (dbl (g - p) * dbl (1 / 10))) - p - (g - p) / 10\<bar>
                      \<le> \<bar>g - p\<bar> / 100))
         \<and> tile_dist (fst (step_tile t)) \<le> 91 / 100 * tile_dist t"
      by (intro conjI)
  qed
next
  let ?N = "nat \<lceil>21 * D\<rceil>"
  have close: "\<forall>t \<in> set (tiles s). tile_range t \<and> tile_dist t \<le> 10 ^ 9
        \<and> (91 / 100) ^ ?N * tile_dist t \<le> 49 / 100"
  proof
    fix t assume t: "t \<in> set (tiles s)"
    then have r: "tile_range t" and d: "tile_dist t \<le> D" using assms(2) by blast+
    then have D: "0 \<le> D" using tile_dist_nonneg [of t] by linarith
    have "(91 / 100) ^ ?N * tile_dist t \<le> (91 / 100) ^ ?N * D"
      using d by (intro mult_left_mono) simp_all
    also have "\<dots> \<le> 49 / 100" using D by (rule ease_bound)
    finally have "(91 / 100) ^ ?N * tile_dist t \<le> 49 / 100" .
    moreover have "tile_dist t \<le> 10 ^ 9" using d assms(3) by linarith
    ultimately show "tile_range t \<and> tile_dist t \<le> 10 ^ 9
        \<and> (91 / 100) ^ ?N * tile_dist t \<le> 49 / 100" using r by blast
  qed
  show "\<exists>n \<le> ?N.
        (\<forall>k. snd (run_frames (n + 1 + k) s) = replicate n StillActive @ Settled # replicate k Idle
             \<and> fst (run_frames (n + 1 + k) s) = fst (run_frames (n + 1) s))
        \<and> (\<forall>t \<in> set (tiles (fst (run_frames (n + 1) s))). at_target t)
        \<and> \<not> isAnimating (fst (run_frames (n + 1) s))
        \<and> (\<forall>m. 1 \<le> m \<and> m \<le> n \<longrightarrow>
              (\<exists>t \<in> set (tiles (fst (run_frames m s))). \<not> at_target t))"
    using assms(1) close by (rule settle_within)
qed

theorem animation_settles_witness:
  "isAnimating moving_example
   \<and> tile_range (hd (tiles moving_example))
   \<and> tile_dist (hd (tiles moving_example)) \<le> 3
   \<and> tile_dist (fst (step_tile (hd (tiles moving_example)))) \<le> 91 / 100 * 3
   \<and> (\<exists>n \<le> 63. snd (run_frames (n + 1) moving_example) = replicate n StillActive @ [Settled]
          \<and> \<not> isAnimating (fst (run_frames (n + 1) moving_example)))"
proof -
  have a: "isAnimating moving_example" by (simp add: moving_example_def)
  have d: "\<forall>t \<in> set (tiles moving_example). tile_range t \<and> tile_dist t \<le> 3"
    by (simp add: moving_example_def new_tile_def updateDimensions_def tile_dist_def
          axis_dist_def tile_range_def axis_range_def)
  have h: "tile_range (hd (tiles moving_example))" "tile_dist (hd (tiles moving_example)) \<le> 3"
    using d by (simp_all add: moving_example_def)
  have b: "(3::real) \<le> 10 ^ 9" by simp
  have mem: "hd (tiles moving_example) \<in> set (tiles moving_example)"
    by (simp add: moving_example_def)
  note th = animation_settles [OF a d b]
  from th mem have "tile_dist (fst (step_tile (hd (tiles moving_example))))
      \<le> 91 / 100 * tile_dist (hd (tiles moving_example))" by blast
  then have c: "tile_dist (fst (step_tile (hd (tiles moving_example)))) \<le> 91 / 100 * 3"
    using h(2) by linarith
  from th obtain n where n: "n \<le> nat \<lceil>21 * (3::real)\<rceil>"
    and sig: "\<forall>k. snd (run_frames (n + 1 + k) moving_example) =
                replicate n StillActive @ Settled # replicate k Idle
             \<and> fst (run_frames (n + 1 + k) moving_example) = fst (run_frames (n + 1) moving_example)"
    and off: "\<not> isAnimating (fst (run_frames (n + 1) moving_example))"
    by blast
  from sig [rule_format, of 0] have
    "snd (run_frames (n + 1) moving_example) = replicate n StillActive @ [Settled]"
    by (simp del: run_frames.simps)
  moreover have "n \<le> 63" using n by simp
  ultimately show ?thesis using a h c off by blast
qed

text \<open>
  Two runs against the claim as the specification words it. A tile at \<open>2\<^sup>5\<^sup>3\<close> with its
  target four pixels away never moves, since the step of 0.4 is lost in the rounding of
  the sum: every frame asks for another one and none signals "settled". And the first
  step from 0 towards 3 does not land on three tenths.
\<close>

theorem animation_stalls_counterexample:
  "isAnimating big_example
   \<and> tile_dist (hd (tiles big_example)) = 4
   \<and> render big_example = (big_example, StillActive)
   \<and> run_frames 100 big_example = (big_example, replicate 100 StillActive)
   \<and> tile_x (fst (step_tile (hd (tiles moving_example)))) = Some (1351079888211149 / 2 ^ 52)
   \<and> (1351079888211149 / 2 ^ 52 :: real) \<noteq> 3 / 10"
proof -
  have a: "isAnimating big_example" by (simp add: big_example_def)
  have b: "tile_dist (hd (tiles big_example)) = 4"
    by (simp add: big_example_def new_tile_def updateDimensions_def tile_dist_def axis_dist_def)
  show ?thesis
    using a b by (simp add: big_example_fixed big_example_never_settles
        moving_example_first_step del: run_frames.simps)
qed

end
